theory Spec2Isabelle
  imports Main
begin

unbundle bit_operations_syntax

section \<open>Unrolling discontiguous wildcard masks (wildcard.py)\<close>

text \<open>
  The script works on Python integers, which are unbounded, so addresses, masks and
  candidates are values of type \<open>int\<close>. Bit positions are counted "prefix-length style":
  position 1 is the most significant of 32 bits, position \<open>p\<close> is the bit of weight
  \<open>2 ^ (32 - p)\<close>. Positions come from \<open>range(1, 33)\<close> and are never negative, so they are
  of type \<open>nat\<close>; the arithmetic the script does on them (\<open>start - 1\<close>, \<open>32 - end\<close>,
  \<open>end - start + 1\<close>) is done in \<open>int\<close>, as Python does it.
\<close>

subsection \<open>Errors and Python primitives\<close>

datatype error =
    SocketError           \<comment> \<open>\<open>socket.inet_aton\<close> rejects the string\<close>
  | IndexError            \<comment> \<open>index into an empty list\<close>
  | ValueError            \<comment> \<open>negative shift count; network with host bits set\<close>
  | TypeError             \<comment> \<open>\<open>range\<close> called with a float\<close>
  | AddressValueError     \<comment> \<open>\<open>ipaddress\<close>: address outside \<open>0 .. 2^32 - 1\<close>\<close>
  | NetmaskValueError     \<comment> \<open>\<open>ipaddress\<close>: prefix length outside \<open>0 .. 32\<close>\<close>

text \<open>Python's \<open>a << n\<close> and \<open>a >> n\<close>: a negative shift count raises ValueError.\<close>

definition shl :: "int \<Rightarrow> int \<Rightarrow> error + int" where
  "shl a n = (if n < 0 then Inl ValueError else Inr (push_bit (nat n) a))"

definition shr :: "int \<Rightarrow> int \<Rightarrow> error + int" where
  "shr a n = (if n < 0 then Inl ValueError else Inr (drop_bit (nat n) a))"

text \<open>
  \<open>range(0, 2**bits)\<close>: for a negative exponent \<open>2**bits\<close> is a float, which \<open>range\<close>
  refuses with TypeError.
\<close>

definition range_pow2 :: "int \<Rightarrow> error + int list" where
  "range_pow2 bits =
     (if bits < 0 then Inl TypeError else Inr (map int [0..<2 ^ nat bits]))"

text \<open>A \<open>for\<close> loop whose body may raise: the first error ends the loop.\<close>

fun for_loop :: "('s \<Rightarrow> 'a \<Rightarrow> error + 's) \<Rightarrow> 's \<Rightarrow> 'a list \<Rightarrow> error + 's" where
  "for_loop body s [] = Inr s"
| "for_loop body s (x # xs) =
     (case body s x of Inl e \<Rightarrow> Inl e | Inr s' \<Rightarrow> for_loop body s' xs)"

subsection \<open>\<open>mask_from_slash\<close> (lines 8-15)\<close>

text \<open>
  \<open>for bit in range(0, slash): mask = (mask >> 1) | 0x80000000\<close>. The loop runs \<open>slash\<close>
  times, and not at all when \<open>slash\<close> is zero or negative.
\<close>

definition mask_from_slash :: "int \<Rightarrow> int" where
  "mask_from_slash slash =
     foldl (\<lambda>mask bit. drop_bit 1 mask OR 0x80000000) 0x00000000 [0..<nat slash]"

subsection \<open>\<open>ip2long\<close> (lines 17-22)\<close>

text \<open>
  Modelled from the spec: \<open>socket.inet_aton\<close>, the parser that \<open>ip2long\<close> calls, belongs
  to the C library and not to the script. The specification (section 6) describes it as a
  standard parser of dotted-quad IPv4 literals that rejects a wrong octet count, an octet
  out of range and a non-numeric octet. The model accepts four decimal octets \<open>0 .. 255\<close>
  separated by dots, each written without a leading zero (which the C library would read
  as octal), and rejects every other string; the shorthand, octal and hexadecimal forms
  that the C library also accepts are outside the model.
  \<open>struct.unpack("!L", ...)\<close> reads the four octets as one big-endian unsigned number.
\<close>

definition digit_val :: "char \<Rightarrow> int option" where
  "digit_val c =
     (let code = (of_char c :: nat)
      in if 48 \<le> code \<and> code \<le> 57 then Some (int code - 48) else None)"

fun decimal :: "int \<Rightarrow> string \<Rightarrow> int option" where
  "decimal acc [] = Some acc"
| "decimal acc (c # cs) =
     (case digit_val c of None \<Rightarrow> None | Some d \<Rightarrow> decimal (10 * acc + d) cs)"

definition octet :: "string \<Rightarrow> int option" where
  "octet s =
     (if s = [] \<or> 3 < length s \<or> (1 < length s \<and> hd s = CHR ''0'') then None
      else case decimal 0 s of
             None \<Rightarrow> None
           | Some v \<Rightarrow> if v \<le> 255 then Some v else None)"

fun split_dots :: "string \<Rightarrow> string \<Rightarrow> string list" where
  "split_dots cur [] = [rev cur]"
| "split_dots cur (c # cs) =
     (if c = CHR ''.'' then rev cur # split_dots [] cs else split_dots (c # cur) cs)"

definition ip2long :: "string \<Rightarrow> error + int" where
  "ip2long ip =
     (case map octet (split_dots [] ip) of
        [Some a, Some b, Some c, Some d] \<Rightarrow> Inr (((a * 256 + b) * 256 + c) * 256 + d)
      | _ \<Rightarrow> Inl SocketError)"

subsection \<open>\<open>is_bit_on\<close> (lines 24-29)\<close>

definition is_bit_on :: "int \<Rightarrow> nat \<Rightarrow> error + bool" where
  "is_bit_on number b =
     (case shl 1 (32 - int b) of
        Inl e \<Rightarrow> Inl e
      | Inr single \<Rightarrow> Inr (number AND single \<noteq> 0))"

subsection \<open>\<open>contiguous_bits\<close> (lines 31-50)\<close>

text \<open>
  The loop keeps the list \<open>ranges\<close> and the two variables \<open>start\<close> and \<open>end\<close>. The two are
  always assigned together: both \<open>None\<close>, or both integers. The state holds them as one
  optional pair. \<open>if start:\<close> and \<open>elif end:\<close> test Python truthiness, which for an
  integer is being different from 0 and for \<open>None\<close> is false. The parameter \<open>mask\<close> is
  written \<open>wmask\<close> (wildcard mask), since \<open>mask\<close> is a constant of the library.
\<close>

type_synonym bit_range = "nat \<times> nat"

type_synonym scan_state = "bit_range list \<times> (nat \<times> nat) option"

definition scan_bit :: "int \<Rightarrow> scan_state \<Rightarrow> nat \<Rightarrow> error + scan_state" where
  "scan_bit wmask st b =
     (case st of (ranges, cur) \<Rightarrow>
        case is_bit_on wmask b of
          Inl e \<Rightarrow> Inl e
        | Inr on \<Rightarrow>
            if on then
              (case cur of
                 None \<Rightarrow> Inr (ranges, Some (b, b))
               | Some (start, end) \<Rightarrow>
                   if start \<noteq> 0 then Inr (ranges, Some (start, b))
                   else Inr (ranges, Some (b, b)))
            else
              (case cur of
                 None \<Rightarrow> Inr (ranges, None)
               | Some (start, end) \<Rightarrow>
                   if end \<noteq> 0 then Inr (ranges @ [(start, end)], None)
                   else Inr (ranges, cur)))"

definition contiguous_bits :: "int \<Rightarrow> error + bit_range list" where
  "contiguous_bits wmask =
     (case for_loop (scan_bit wmask) ([], None) [1..<33] of
        Inl e \<Rightarrow> Inl e
      | Inr (ranges, cur) \<Rightarrow>
          (case cur of
             None \<Rightarrow> Inr ranges
           | Some (start, end) \<Rightarrow>
               if end \<noteq> 0 then Inr (ranges @ [(start, end)]) else Inr ranges))"

subsection \<open>\<open>unroller\<close> (lines 52-68)\<close>

text \<open>
  The body of the inner loop (lines 66-67) for one \<open>prefix\<close> and one \<open>field\<close>: it appends
  one value to \<open>unrolled\<close>.
\<close>

definition unroll_field :: "nat \<Rightarrow> nat \<Rightarrow> int \<Rightarrow> int list \<Rightarrow> int \<Rightarrow> error + int list" where
  "unroll_field start end prefix unrolled field =
     (case shr (mask_from_slash 32) (int end) of
        Inl e \<Rightarrow> Inl e
      | Inr low \<Rightarrow>
          let mask = mask_from_slash (int start - 1) OR low in
          case shl field (32 - int end) of
            Inl e \<Rightarrow> Inl e
          | Inr shifted \<Rightarrow> Inr (unrolled @ [(prefix AND mask) OR shifted]))"

text \<open>The body of the outer loop (lines 65-67) for one \<open>prefix\<close>.\<close>

definition unroll_prefix :: "nat \<Rightarrow> nat \<Rightarrow> int list \<Rightarrow> int \<Rightarrow> error + int list" where
  "unroll_prefix start end unrolled prefix =
     (let bits = int end - int start + 1 in
      case range_pow2 bits of
        Inl e \<Rightarrow> Inl e
      | Inr fields \<Rightarrow> for_loop (unroll_field start end prefix) unrolled fields)"

text \<open>Lines 60-67: the expansion of the head range over all prefixes.\<close>

definition unroll_range :: "bit_range \<Rightarrow> int list \<Rightarrow> error + int list" where
  "unroll_range rng prefixes =
     (case rng of (start, end) \<Rightarrow> for_loop (unroll_prefix start end) [] prefixes)"

fun unroller :: "bit_range list \<Rightarrow> int list \<Rightarrow> error + int list" where
  "unroller [] prefixes = Inr prefixes"
| "unroller (rng # ranges) prefixes =
     (case unroll_range rng prefixes of
        Inl e \<Rightarrow> Inl e
      | Inr unrolled \<Rightarrow> unroller ranges unrolled)"

subsection \<open>\<open>ipaddress.IPv4Network\<close>\<close>

text \<open>
  Modelled from the spec: \<open>ipaddress.IPv4Network\<close>, the library class behind the
  specification's NetworkResult, is not part of the script. A network is its address and
  its prefix length, and for a subnet the address has all bits below the prefix zeroed.
  The constructor is strict, as the library documents it: it checks the address range,
  then the prefix length, then that no bit of the address lies outside the netmask
  \<open>0xFFFFFFFF ^ (0xFFFFFFFF >> prefixlen)\<close> (otherwise "has host bits set").
\<close>

record ipv4network =
  network_address :: int
  prefixlen :: int

definition netmask_of_prefix :: "int \<Rightarrow> int" where
  "netmask_of_prefix p = 0xFFFFFFFF XOR drop_bit (nat p) 0xFFFFFFFF"

text \<open>\<open>IPv4Network((address, prefix))\<close>\<close>

definition IPv4Network_pair :: "int \<Rightarrow> int \<Rightarrow> error + ipv4network" where
  "IPv4Network_pair address prefix =
     (if address < 0 \<or> 0xFFFFFFFF < address then Inl AddressValueError
      else if prefix < 0 \<or> 32 < prefix then Inl NetmaskValueError
      else if address AND netmask_of_prefix prefix \<noteq> address then Inl ValueError
      else Inr \<lparr>network_address = address, prefixlen = prefix\<rparr>)"

text \<open>\<open>IPv4Network(address)\<close> for an integer: the single host, prefix length 32.\<close>

definition IPv4Network_int :: "int \<Rightarrow> error + ipv4network" where
  "IPv4Network_int address =
     (if address < 0 \<or> 0xFFFFFFFF < address then Inl AddressValueError
      else Inr \<lparr>network_address = address, prefixlen = 32\<rparr>)"

subsection \<open>\<open>unroll\<close> (lines 70-96)\<close>

text \<open>The body of the loop of lines 88-94 for one \<open>address\<close>.\<close>

definition process_address ::
  "bit_range option \<Rightarrow> ipv4network list \<Rightarrow> int \<Rightarrow> error + ipv4network list" where
  "process_address rng processed address =
     (case rng of
        Some (start, end) \<Rightarrow>
          (let network = address AND mask_from_slash (int start - 1) in
           case IPv4Network_pair network (int start - 1) of
             Inl e \<Rightarrow> Inl e
           | Inr n \<Rightarrow> Inr (processed @ [n]))
      | None \<Rightarrow>
          (case IPv4Network_int address of
             Inl e \<Rightarrow> Inl e
           | Inr n \<Rightarrow> Inr (processed @ [n])))"

text \<open>Lines 87-96.\<close>

definition process :: "bit_range option \<Rightarrow> int list \<Rightarrow> error + ipv4network list" where
  "process rng unrolled = for_loop (process_address rng) [] unrolled"

text \<open>
  Lines 81-96, on the two parsed numbers. \<open>ranges[-1]\<close> raises IndexError on an empty
  list; \<open>ranges.pop()\<close> removes the last range.
\<close>

definition unroll_long :: "int \<Rightarrow> int \<Rightarrow> error + ipv4network list" where
  "unroll_long addr_as_long mask_as_long =
     (case contiguous_bits mask_as_long of
        Inl e \<Rightarrow> Inl e
      | Inr ranges \<Rightarrow>
          if ranges = [] then Inl IndexError
          else
            (case (if snd (last ranges) = 32 then (Some (last ranges), butlast ranges)
                   else (None, ranges)) of
               (rng, ranges') \<Rightarrow>
                 (case unroller ranges' [addr_as_long] of
                    Inl e \<Rightarrow> Inl e
                  | Inr unrolled \<Rightarrow> process rng unrolled)))"

definition unroll :: "string \<Rightarrow> string \<Rightarrow> error + ipv4network list" where
  "unroll addr wmask =
     (case ip2long addr of
        Inl e \<Rightarrow> Inl e
      | Inr addr_as_long \<Rightarrow>
          (case ip2long wmask of
             Inl e \<Rightarrow> Inl e
           | Inr mask_as_long \<Rightarrow> unroll_long addr_as_long mask_as_long))"

section \<open>Notions used in the statements and proofs\<close>

subsection \<open>Re-assembling a mask from ranges\<close>

text \<open>
  The specification's check of the range finder: OR-ing a single bit at every position of
  every range gives a mask again. \<open>set_range_bits\<close> sets the bits of one range
  (positions \<open>start .. end\<close>), \<open>ranges_to_mask\<close> those of all ranges, starting from 0.
\<close>

definition set_range_bits :: "int \<Rightarrow> bit_range \<Rightarrow> int" where
  "set_range_bits acc r =
     (case r of (s, e) \<Rightarrow> foldl (\<lambda>a p. a OR push_bit (32 - p) 1) acc [s..<Suc e])"

definition ranges_to_mask :: "bit_range list \<Rightarrow> int" where
  "ranges_to_mask rs = foldl set_range_bits 0 rs"

subsection \<open>The invariant of the scan\<close>

text \<open>
  \<open>scan_inv m n\<close> holds of the loop state of \<open>contiguous_bits\<close> before position \<open>n\<close> is
  tested: every range in \<open>ranges\<close> is a maximal run of set bits that ended before
  position \<open>n - 1\<close>; the ranges ascend with a gap between neighbours; the open run, if
  there is one, began at \<open>start\<close>, reaches position \<open>n - 1\<close> and lies after all closed
  ranges; and every set bit before \<open>n\<close> is in a closed range or in the open run.
  \<open>runs_of m rs\<close> is what remains of it after position 32.
\<close>

definition closed_run :: "int \<Rightarrow> nat \<Rightarrow> bit_range \<Rightarrow> bool" where
  "closed_run m n r =
     (case r of (s, e) \<Rightarrow>
        1 \<le> s \<and> s \<le> e \<and> e + 1 < n
        \<and> (\<forall>p. s \<le> p \<and> p \<le> e \<longrightarrow> bit m (32 - p))
        \<and> (1 < s \<longrightarrow> \<not> bit m (32 - (s - 1)))
        \<and> \<not> bit m (32 - (e + 1)))"

definition open_run :: "int \<Rightarrow> nat \<Rightarrow> bit_range list \<Rightarrow> bit_range option \<Rightarrow> bool" where
  "open_run m n ranges cur =
     (case cur of
        None \<Rightarrow> n = 1 \<or> \<not> bit m (32 - (n - 1))
      | Some (s, e) \<Rightarrow>
          1 \<le> s \<and> s \<le> e \<and> e + 1 = n
          \<and> (\<forall>p. s \<le> p \<and> p \<le> e \<longrightarrow> bit m (32 - p))
          \<and> (1 < s \<longrightarrow> \<not> bit m (32 - (s - 1)))
          \<and> (\<forall>r\<in>set ranges. snd r + 1 < s))"

definition covered :: "bit_range list \<Rightarrow> bit_range option \<Rightarrow> nat \<Rightarrow> bool" where
  "covered ranges cur p =
     ((\<exists>r\<in>set ranges. fst r \<le> p \<and> p \<le> snd r) \<or> (\<exists>r. cur = Some r \<and> fst r \<le> p))"

definition scan_inv :: "int \<Rightarrow> nat \<Rightarrow> scan_state \<Rightarrow> bool" where
  "scan_inv m n st =
     (case st of (ranges, cur) \<Rightarrow>
        (\<forall>r\<in>set ranges. closed_run m n r)
        \<and> sorted_wrt (\<lambda>r r'. snd r + 1 < fst r') ranges
        \<and> open_run m n ranges cur
        \<and> (\<forall>p. 1 \<le> p \<and> p < n \<and> bit m (32 - p) \<longrightarrow> covered ranges cur p))"

definition runs_of :: "int \<Rightarrow> bit_range list \<Rightarrow> bool" where
  "runs_of m rs =
     ((\<forall>r\<in>set rs. 1 \<le> fst r \<and> fst r \<le> snd r \<and> snd r \<le> 32)
      \<and> sorted_wrt (\<lambda>r r'. snd r + 1 < fst r') rs
      \<and> (\<forall>r\<in>set rs. \<forall>p. fst r \<le> p \<and> p \<le> snd r \<longrightarrow> bit m (32 - p))
      \<and> (\<forall>r\<in>set rs. (1 < fst r \<longrightarrow> \<not> bit m (32 - (fst r - 1)))
                    \<and> (snd r < 32 \<longrightarrow> \<not> bit m (32 - (snd r + 1))))
      \<and> (\<forall>p. 1 \<le> p \<and> p \<le> 32 \<and> bit m (32 - p) \<longrightarrow> (\<exists>r\<in>set rs. fst r \<le> p \<and> p \<le> snd r)))"

subsection \<open>The expansion, in the specification's words\<close>

text \<open>
  The preservation mask of a range, as the specification describes it: all bits above
  \<open>start\<close>, by \<open>mask_from_slash (start - 1)\<close>, and all bits below \<open>end\<close>, by the 32-bit
  complement of \<open>mask_from_slash end\<close>. (The script computes the second part as
  \<open>mask_from_slash(32) >> end\<close>.)
\<close>

definition preservation_mask :: "nat \<Rightarrow> nat \<Rightarrow> int" where
  "preservation_mask start end =
     mask_from_slash (int start - 1) OR take_bit 32 (NOT (mask_from_slash (int end)))"

text \<open>The width of a range, \<open>end - start + 1\<close>, and the total width of a list of ranges.\<close>

definition width :: "bit_range \<Rightarrow> nat" where
  "width r = (case r of (start, end) \<Rightarrow> nat (int end - int start + 1))"

definition total_width :: "bit_range list \<Rightarrow> nat" where
  "total_width rs = sum_list (map width rs)"

text \<open>
  The candidates of one range, in the order the specification gives: grouped by seed,
  and for one seed by ascending \<open>field\<close>.
\<close>

definition expansion :: "bit_range \<Rightarrow> int list \<Rightarrow> int list" where
  "expansion r seeds =
     (case r of (start, end) \<Rightarrow>
        concat (map (\<lambda>seed. map (\<lambda>field. (seed AND preservation_mask start end)
                                            OR push_bit (32 - end) (int field))
                               [0..<2 ^ width r]) seeds))"

text \<open>A position \<open>1 .. 32\<close> lies in one of the ranges.\<close>

definition in_ranges :: "bit_range list \<Rightarrow> nat \<Rightarrow> bool" where
  "in_ranges rs p = (\<exists>r\<in>set rs. fst r \<le> p \<and> p \<le> snd r)"

text \<open>
  The values of a list are told apart by the bits at the positions \<open>P\<close>: no value occurs
  twice, and two values that agree at every position of \<open>P\<close> are equal.
\<close>

definition separated :: "nat set \<Rightarrow> int list \<Rightarrow> bool" where
  "separated P xs =
     (distinct xs
      \<and> (\<forall>x\<in>set xs. \<forall>y\<in>set xs. (\<forall>p\<in>P. bit x (32 - p) = bit y (32 - p)) \<longrightarrow> x = y))"

section \<open>The bits of \<open>mask_from_slash\<close>\<close>

lemma bit_top: "bit (0x80000000::int) i \<longleftrightarrow> i = 31"
proof -
  have e: "(0x80000000::int) = 2 ^ 31"
    by simp
  show ?thesis
    unfolding e bit_exp_iff by simp
qed

lemma bit_mask_step:
  "bit (drop_bit (Suc 0) m OR (0x80000000::int)) i \<longleftrightarrow> bit m (Suc i) \<or> i = 31"
  by (simp add: bit_or_iff bit_drop_bit_eq bit_top)

lemma bit_mask_loop:
  "bit (foldl (\<lambda>m b. drop_bit (Suc 0) m OR (0x80000000::int)) 0 [0..<k]) i
     \<longleftrightarrow> i < 32 \<and> 32 - k \<le> i"
proof (induction k arbitrary: i)
  case 0
  show ?case by simp
next
  case (Suc k)
  show ?case
    using Suc.IH [of "Suc i"] by (auto simp add: bit_mask_step)
qed

lemma bit_mask_from_slash:
  "bit (mask_from_slash n) i \<longleftrightarrow> i < 32 \<and> 32 - nat n \<le> i"
  unfolding mask_from_slash_def using bit_mask_loop [of "nat n" i] by simp

lemma mask_from_slash_take_bit: "take_bit 32 (mask_from_slash n) = mask_from_slash n"
  by (rule bit_eqI) (auto simp add: bit_simps bit_mask_from_slash)

lemma mask_from_slash_range: "0 \<le> mask_from_slash n \<and> mask_from_slash n < 2 ^ 32"
  using mask_from_slash_take_bit [of n] by (simp add: take_bit_int_eq_self_iff)

lemma mask_from_slash_closed:
  assumes "0 \<le> n" "n \<le> 32"
  shows "mask_from_slash n = 2 ^ 32 - 2 ^ nat (32 - n)"
proof -
  have "mask_from_slash n = push_bit (nat (32 - n)) (mask (nat n))"
    using assms by (intro bit_eqI) (auto simp add: bit_simps bit_mask_from_slash)
  also have "\<dots> = 2 ^ nat (32 - n) * (2 ^ nat n - 1)"
    by (simp add: push_bit_eq_mult mask_eq_exp_minus_1)
  also have "\<dots> = 2 ^ (nat (32 - n) + nat n) - 2 ^ nat (32 - n)"
    by (simp add: algebra_simps power_add)
  also have "nat (32 - n) + nat n = 32"
    using assms by simp
  finally show ?thesis by simp
qed

text \<open>
  C6. For every \<open>n\<close> with \<open>0 \<le> n \<le> 32\<close>, \<open>mask_from_slash n\<close> is the 32-bit mask with
  the top \<open>n\<close> bits set and the other \<open>32 - n\<close> bits clear: bit \<open>i\<close> (of weight \<open>2^i\<close>) is
  set exactly when \<open>32 - n \<le> i < 32\<close>, which is the number \<open>2^32 - 2^(32 - n)\<close>. In
  particular \<open>mask_from_slash 0 = 0\<close> and \<open>mask_from_slash 32 = 0xFFFFFFFF\<close>.
\<close>

theorem mask_from_slash_top_bits:
  assumes "0 \<le> n" "n \<le> 32"
  shows "(\<forall>i. bit (mask_from_slash n) i \<longleftrightarrow> 32 - nat n \<le> i \<and> i < 32)
     \<and> mask_from_slash n = 2 ^ 32 - 2 ^ nat (32 - n)
     \<and> 0 \<le> mask_from_slash n \<and> mask_from_slash n < 2 ^ 32
     \<and> mask_from_slash 0 = 0 \<and> mask_from_slash 32 = 0xFFFFFFFF"
proof -
  have bits: "\<forall>i. bit (mask_from_slash n) i \<longleftrightarrow> 32 - nat n \<le> i \<and> i < 32"
    by (auto simp add: bit_mask_from_slash)
  have zero: "mask_from_slash 0 = 0"
    by (simp add: mask_from_slash_def)
  have full: "mask_from_slash 32 = 0xFFFFFFFF"
    using mask_from_slash_closed [of 32] by simp
  from bits mask_from_slash_closed [OF assms] mask_from_slash_range [of n] zero full
  show ?thesis by blast
qed

theorem mask_from_slash_top_bits_witness:
  "(0::int) \<le> 24 \<and> (24::int) \<le> 32 \<and> mask_from_slash 24 = 0xFFFFFF00
     \<and> mask_from_slash 0 = 0 \<and> mask_from_slash 32 = 0xFFFFFFFF"
  using mask_from_slash_top_bits [of 24] by simp

section \<open>The range finder\<close>

lemma is_bit_on_bit:
  assumes "b \<le> 32"
  shows "is_bit_on m b = Inr (bit m (32 - b))"
proof -
  have "nat (32 - int b) = 32 - b"
    using assms by simp
  then show ?thesis
    using assms by (simp add: is_bit_on_def shl_def bit_iff_and_push_bit_not_eq_0)
qed

lemma for_loop_upt:
  assumes "I a s" and "a \<le> b"
    and step: "\<And>k t. a \<le> k \<Longrightarrow> k < b \<Longrightarrow> I k t \<Longrightarrow> \<exists>t'. body t k = Inr t' \<and> I (Suc k) t'"
  shows "\<exists>t. for_loop body s [a..<b] = Inr t \<and> I b t"
  using assms
proof (induction "b - a" arbitrary: a s)
  case 0
  then show ?case by simp
next
  case (Suc d)
  then have lt: "a < b" by simp
  from Suc.prems(3) [of a s] Suc.prems(1) lt
  obtain t' where t': "body s a = Inr t'" "I (Suc a) t'" by auto
  have "\<exists>t. for_loop body t' [Suc a..<b] = Inr t \<and> I b t"
  proof (rule Suc.hyps(1))
    show "d = b - Suc a" using Suc.hyps(2) by simp
    show "I (Suc a) t'" by (rule t'(2))
    show "Suc a \<le> b" using lt by simp
    show "\<And>k t. Suc a \<le> k \<Longrightarrow> k < b \<Longrightarrow> I k t \<Longrightarrow> \<exists>t'. body t k = Inr t' \<and> I (Suc k) t'"
      using Suc.prems(3) by simp
  qed
  then show ?case
    using lt t'(1) by (simp add: upt_conv_Cons)
qed

lemma scan_inv_init: "scan_inv m 1 ([], None)"
  by (simp add: scan_inv_def open_run_def)

lemma closed_run_mono: "closed_run m n r \<Longrightarrow> n \<le> n' \<Longrightarrow> closed_run m n' r"
  by (auto simp add: closed_run_def)

lemma scan_bit_on_none:
  assumes "scan_inv m n (ranges, None)" "1 \<le> n" "n \<le> 32" "bit m (32 - n)"
  shows "scan_bit m (ranges, None) n = Inr (ranges, Some (n, n))"
    and "scan_inv m (Suc n) (ranges, Some (n, n))"
proof -
  show "scan_bit m (ranges, None) n = Inr (ranges, Some (n, n))"
    using assms by (simp add: scan_bit_def is_bit_on_bit)
  have c: "\<forall>r\<in>set ranges. closed_run m n r"
    and s: "sorted_wrt (\<lambda>r r'. snd r + 1 < fst r') ranges"
    and o: "n = 1 \<or> \<not> bit m (32 - (n - 1))"
    and v: "\<forall>p. 1 \<le> p \<and> p < n \<and> bit m (32 - p) \<longrightarrow> covered ranges None p"
    using assms(1) by (simp_all add: scan_inv_def open_run_def)
  have c': "\<forall>r\<in>set ranges. closed_run m (Suc n) r"
    using c closed_run_mono [of m n _ "Suc n"] by simp
  have o': "open_run m (Suc n) ranges (Some (n, n))"
    using assms(2,4) o c by (auto simp add: open_run_def closed_run_def)
  have v': "\<forall>p. 1 \<le> p \<and> p < Suc n \<and> bit m (32 - p) \<longrightarrow> covered ranges (Some (n, n)) p"
  proof (intro allI impI)
    fix p assume p: "1 \<le> p \<and> p < Suc n \<and> bit m (32 - p)"
    show "covered ranges (Some (n, n)) p"
    proof (cases "p = n")
      case True then show ?thesis by (simp add: covered_def)
    next
      case False
      with p v have "covered ranges None p" by simp
      then show ?thesis by (simp add: covered_def)
    qed
  qed
  show "scan_inv m (Suc n) (ranges, Some (n, n))"
    using c' s o' v' by (simp add: scan_inv_def)
qed

lemma scan_bit_on_some:
  assumes "scan_inv m n (ranges, Some (s, e))" "1 \<le> n" "n \<le> 32" "bit m (32 - n)"
  shows "scan_bit m (ranges, Some (s, e)) n = Inr (ranges, Some (s, n))"
    and "scan_inv m (Suc n) (ranges, Some (s, n))"
proof -
  have c: "\<forall>r\<in>set ranges. closed_run m n r"
    and st: "sorted_wrt (\<lambda>r r'. snd r + 1 < fst r') ranges"
    and o: "open_run m n ranges (Some (s, e))"
    and v: "\<forall>p. 1 \<le> p \<and> p < n \<and> bit m (32 - p) \<longrightarrow> covered ranges (Some (s, e)) p"
    using assms(1) by (simp_all add: scan_inv_def)
  from o have s1: "1 \<le> s" and en: "e + 1 = n" and se: "s \<le> e"
    by (simp_all add: open_run_def)
  show "scan_bit m (ranges, Some (s, e)) n = Inr (ranges, Some (s, n))"
    using assms s1 by (simp add: scan_bit_def is_bit_on_bit)
  have c': "\<forall>r\<in>set ranges. closed_run m (Suc n) r"
    using c closed_run_mono [of m n _ "Suc n"] by simp
  have o': "open_run m (Suc n) ranges (Some (s, n))"
    using o assms(4) en se unfolding open_run_def
    by (auto simp add: le_Suc_eq)
  have v': "\<forall>p. 1 \<le> p \<and> p < Suc n \<and> bit m (32 - p) \<longrightarrow> covered ranges (Some (s, n)) p"
  proof (intro allI impI)
    fix p assume p: "1 \<le> p \<and> p < Suc n \<and> bit m (32 - p)"
    show "covered ranges (Some (s, n)) p"
    proof (cases "p = n")
      case True then show ?thesis using en se by (simp add: covered_def)
    next
      case False
      with p v have "covered ranges (Some (s, e)) p" by simp
      then show ?thesis by (simp add: covered_def)
    qed
  qed
  show "scan_inv m (Suc n) (ranges, Some (s, n))"
    using c' st o' v' by (simp add: scan_inv_def)
qed

lemma scan_bit_off_none:
  assumes "scan_inv m n (ranges, None)" "1 \<le> n" "n \<le> 32" "\<not> bit m (32 - n)"
  shows "scan_bit m (ranges, None) n = Inr (ranges, None)"
    and "scan_inv m (Suc n) (ranges, None)"
proof -
  show "scan_bit m (ranges, None) n = Inr (ranges, None)"
    using assms by (simp add: scan_bit_def is_bit_on_bit)
  have c: "\<forall>r\<in>set ranges. closed_run m n r"
    and s: "sorted_wrt (\<lambda>r r'. snd r + 1 < fst r') ranges"
    and v: "\<forall>p. 1 \<le> p \<and> p < n \<and> bit m (32 - p) \<longrightarrow> covered ranges None p"
    using assms(1) by (simp_all add: scan_inv_def)
  have c': "\<forall>r\<in>set ranges. closed_run m (Suc n) r"
    using c closed_run_mono [of m n _ "Suc n"] by simp
  have v': "\<forall>p. 1 \<le> p \<and> p < Suc n \<and> bit m (32 - p) \<longrightarrow> covered ranges None p"
    using v assms(4) by (auto simp add: less_Suc_eq)
  show "scan_inv m (Suc n) (ranges, None)"
    using c' s v' assms(4) by (simp add: scan_inv_def open_run_def)
qed

lemma scan_bit_off_some:
  assumes "scan_inv m n (ranges, Some (s, e))" "1 \<le> n" "n \<le> 32" "\<not> bit m (32 - n)"
  shows "scan_bit m (ranges, Some (s, e)) n = Inr (ranges @ [(s, e)], None)"
    and "scan_inv m (Suc n) (ranges @ [(s, e)], None)"
proof -
  have c: "\<forall>r\<in>set ranges. closed_run m n r"
    and st: "sorted_wrt (\<lambda>r r'. snd r + 1 < fst r') ranges"
    and o: "open_run m n ranges (Some (s, e))"
    and v: "\<forall>p. 1 \<le> p \<and> p < n \<and> bit m (32 - p) \<longrightarrow> covered ranges (Some (s, e)) p"
    using assms(1) by (simp_all add: scan_inv_def)
  from o have s1: "1 \<le> s" and en: "e + 1 = n" and se: "s \<le> e"
    and on: "\<forall>p. s \<le> p \<and> p \<le> e \<longrightarrow> bit m (32 - p)"
    and left: "1 < s \<longrightarrow> \<not> bit m (32 - (s - 1))"
    and gap: "\<forall>r\<in>set ranges. snd r + 1 < s"
    by (simp_all add: open_run_def)
  show "scan_bit m (ranges, Some (s, e)) n = Inr (ranges @ [(s, e)], None)"
    using assms s1 se by (simp add: scan_bit_def is_bit_on_bit)
  from en have "n = e + 1" by simp
  with assms(4) have right: "\<not> bit m (32 - (e + 1))" by simp
  have "e + 1 < Suc n" using en by simp
  then have new: "closed_run m (Suc n) (s, e)"
    using s1 se on left right by (simp add: closed_run_def)
  have c': "\<forall>r\<in>set (ranges @ [(s, e)]). closed_run m (Suc n) r"
    using c closed_run_mono [of m n _ "Suc n"] new by auto
  have st': "sorted_wrt (\<lambda>r r'. snd r + 1 < fst r') (ranges @ [(s, e)])"
    using st gap by (simp add: sorted_wrt_append)
  have v': "\<forall>p. 1 \<le> p \<and> p < Suc n \<and> bit m (32 - p) \<longrightarrow> covered (ranges @ [(s, e)]) None p"
  proof (intro allI impI)
    fix p assume p: "1 \<le> p \<and> p < Suc n \<and> bit m (32 - p)"
    with assms(4) have "p < n" by (cases "p = n") auto
    with p v have "covered ranges (Some (s, e)) p" by simp
    then show "covered (ranges @ [(s, e)]) None p"
      using \<open>p < n\<close> en by (auto simp add: covered_def)
  qed
  show "scan_inv m (Suc n) (ranges @ [(s, e)], None)"
    using c' st' v' assms(4) by (simp add: scan_inv_def open_run_def)
qed

lemma scan_bit_step:
  assumes "scan_inv m n st" "1 \<le> n" "n < 33"
  shows "\<exists>st'. scan_bit m st n = Inr st' \<and> scan_inv m (Suc n) st'"
proof -
  obtain ranges cur where st: "st = (ranges, cur)" by (cases st)
  from assms(3) have n32: "n \<le> 32" by simp
  show ?thesis
  proof (cases cur)
    case None
    then show ?thesis
      using scan_bit_on_none [of m n ranges] scan_bit_off_none [of m n ranges]
        assms(1,2) n32 st
      by (cases "bit m (32 - n)") auto
  next
    case (Some r)
    obtain s e where r: "r = (s, e)" by (cases r)
    show ?thesis
      using scan_bit_on_some [of m n ranges s e] scan_bit_off_some [of m n ranges s e]
        assms(1,2) n32 st Some r
      by (cases "bit m (32 - n)") auto
  qed
qed

lemma scan_loop:
  "\<exists>st. for_loop (scan_bit m) ([], None) [1..<33] = Inr st \<and> scan_inv m 33 st"
proof (rule for_loop_upt [where I = "scan_inv m"])
  show "scan_inv m 1 ([], None)" by (rule scan_inv_init)
  show "(1::nat) \<le> 33" by simp
  show "\<And>k t. 1 \<le> k \<Longrightarrow> k < 33 \<Longrightarrow> scan_inv m k t \<Longrightarrow>
      \<exists>t'. scan_bit m t k = Inr t' \<and> scan_inv m (Suc k) t'"
    using scan_bit_step by blast
qed

lemma closed_run_final:
  assumes "closed_run m 33 r"
  shows "1 \<le> fst r \<and> fst r \<le> snd r \<and> snd r \<le> 32"
    and "\<forall>p. fst r \<le> p \<and> p \<le> snd r \<longrightarrow> bit m (32 - p)"
    and "1 < fst r \<longrightarrow> \<not> bit m (32 - (fst r - 1))"
    and "snd r < 32 \<longrightarrow> \<not> bit m (32 - (snd r + 1))"
  using assms by (cases r; simp add: closed_run_def)+

lemma runs_of_final_none:
  assumes "scan_inv m 33 (ranges, None)"
  shows "runs_of m ranges"
proof -
  have c: "\<forall>r\<in>set ranges. closed_run m 33 r"
    and st: "sorted_wrt (\<lambda>r r'. snd r + 1 < fst r') ranges"
    and v: "\<forall>p. 1 \<le> p \<and> p < 33 \<and> bit m (32 - p) \<longrightarrow> covered ranges None p"
    using assms by (simp_all add: scan_inv_def)
  have "\<forall>p. 1 \<le> p \<and> p \<le> 32 \<and> bit m (32 - p) \<longrightarrow> (\<exists>r\<in>set ranges. fst r \<le> p \<and> p \<le> snd r)"
    using v by (simp add: covered_def)
  then show ?thesis
    unfolding runs_of_def using c st closed_run_final by blast
qed

lemma runs_of_final_some:
  assumes "scan_inv m 33 (ranges, Some (s, e))"
  shows "e \<noteq> 0" and "runs_of m (ranges @ [(s, e)])"
proof -
  have c: "\<forall>r\<in>set ranges. closed_run m 33 r"
    and st: "sorted_wrt (\<lambda>r r'. snd r + 1 < fst r') ranges"
    and o: "open_run m 33 ranges (Some (s, e))"
    and v: "\<forall>p. 1 \<le> p \<and> p < 33 \<and> bit m (32 - p) \<longrightarrow> covered ranges (Some (s, e)) p"
    using assms by (simp_all add: scan_inv_def)
  from o have s1: "1 \<le> s" and e32: "e = 32" and se: "s \<le> e"
    and on: "\<forall>p. s \<le> p \<and> p \<le> e \<longrightarrow> bit m (32 - p)"
    and left: "1 < s \<longrightarrow> \<not> bit m (32 - (s - 1))"
    and gap: "\<forall>r\<in>set ranges. snd r + 1 < s"
    by (simp_all add: open_run_def)
  show "e \<noteq> 0" using e32 by simp
  have f1: "\<forall>r\<in>set (ranges @ [(s, e)]). 1 \<le> fst r \<and> fst r \<le> snd r \<and> snd r \<le> 32"
    using c closed_run_final(1) s1 se e32 by auto
  have f2: "sorted_wrt (\<lambda>r r'. snd r + 1 < fst r') (ranges @ [(s, e)])"
    using st gap by (simp add: sorted_wrt_append)
  have f3: "\<forall>r\<in>set (ranges @ [(s, e)]). \<forall>p. fst r \<le> p \<and> p \<le> snd r \<longrightarrow> bit m (32 - p)"
    using c closed_run_final(2) on by auto
  have f4: "\<forall>r\<in>set (ranges @ [(s, e)]). (1 < fst r \<longrightarrow> \<not> bit m (32 - (fst r - 1)))
                    \<and> (snd r < 32 \<longrightarrow> \<not> bit m (32 - (snd r + 1)))"
    using c closed_run_final(3,4) left e32 by auto
  have f5: "\<forall>p. 1 \<le> p \<and> p \<le> 32 \<and> bit m (32 - p)
      \<longrightarrow> (\<exists>r\<in>set (ranges @ [(s, e)]). fst r \<le> p \<and> p \<le> snd r)"
  proof (intro allI impI)
    fix p assume p: "1 \<le> p \<and> p \<le> 32 \<and> bit m (32 - p)"
    with v have "covered ranges (Some (s, e)) p" by simp
    then show "\<exists>r\<in>set (ranges @ [(s, e)]). fst r \<le> p \<and> p \<le> snd r"
      using p e32 by (auto simp add: covered_def)
  qed
  show "runs_of m (ranges @ [(s, e)])"
    unfolding runs_of_def using f1 f2 f3 f4 f5 by blast
qed

lemma contiguous_bits_runs:
  "\<exists>rs. contiguous_bits m = Inr rs \<and> runs_of m rs"
proof -
  obtain st where loop: "for_loop (scan_bit m) ([], None) [1..<33] = Inr st"
    and inv: "scan_inv m 33 st"
    using scan_loop by blast
  obtain ranges cur where st: "st = (ranges, cur)" by (cases st)
  show ?thesis
  proof (cases cur)
    case None
    then show ?thesis
      using loop inv st runs_of_final_none [of m ranges]
      by (simp add: contiguous_bits_def)
  next
    case (Some r)
    obtain s e where r: "r = (s, e)" by (cases r)
    show ?thesis
      using loop inv st Some r runs_of_final_some [of m ranges s e]
      by (simp add: contiguous_bits_def)
  qed
qed

lemma bit_set_positions:
  "bit (foldl (\<lambda>a p. a OR (2::int) ^ (32 - p)) acc ps) i
     \<longleftrightarrow> bit acc i \<or> (\<exists>p\<in>set ps. i = 32 - p)"
  by (induction ps arbitrary: acc) (auto simp add: bit_or_iff bit_exp_iff)

lemma bit_set_range_bits:
  "bit (set_range_bits acc r) i
     \<longleftrightarrow> bit acc i \<or> (\<exists>p. fst r \<le> p \<and> p \<le> snd r \<and> i = 32 - p)"
proof -
  obtain s e where r: "r = (s, e)" by (cases r)
  have eq: "set_range_bits acc (s, e) = foldl (\<lambda>a p. a OR (2::int) ^ (32 - p)) acc [s..<Suc e]"
    unfolding set_range_bits_def by simp
  show ?thesis
    unfolding r eq bit_set_positions by (auto simp add: less_Suc_eq_le simp del: upt_Suc)
qed

lemma bit_foldl_set_range_bits:
  "bit (foldl set_range_bits acc rs) i
     \<longleftrightarrow> bit acc i \<or> (\<exists>r\<in>set rs. \<exists>p. fst r \<le> p \<and> p \<le> snd r \<and> i = 32 - p)"
  by (induction rs arbitrary: acc) (auto simp add: bit_set_range_bits)

lemma bit_ranges_to_mask:
  "bit (ranges_to_mask rs) i
     \<longleftrightarrow> (\<exists>r\<in>set rs. \<exists>p. fst r \<le> p \<and> p \<le> snd r \<and> i = 32 - p)"
  by (simp add: ranges_to_mask_def bit_foldl_set_range_bits)

lemma bit_32_bound:
  assumes "0 \<le> m" "m < 2 ^ 32" "bit (m::int) i"
  shows "i < 32"
proof -
  have "take_bit 32 m = m"
    using assms(1,2) by (simp add: take_bit_int_eq_self_iff)
  then have "bit (take_bit 32 m) i"
    using assms(3) by simp
  then show ?thesis
    by (simp add: bit_take_bit_iff)
qed

lemma ranges_to_mask_runs:
  assumes "runs_of m rs" "0 \<le> m" "m < 2 ^ 32"
  shows "ranges_to_mask rs = m"
proof (rule bit_eqI)
  fix i
  have valid: "\<forall>r\<in>set rs. 1 \<le> fst r \<and> fst r \<le> snd r \<and> snd r \<le> 32"
    and on: "\<forall>r\<in>set rs. \<forall>p. fst r \<le> p \<and> p \<le> snd r \<longrightarrow> bit m (32 - p)"
    and cov: "\<forall>p. 1 \<le> p \<and> p \<le> 32 \<and> bit m (32 - p) \<longrightarrow> (\<exists>r\<in>set rs. fst r \<le> p \<and> p \<le> snd r)"
    using assms(1) by (simp_all add: runs_of_def)
  show "bit (ranges_to_mask rs) i \<longleftrightarrow> bit m i"
  proof
    assume "bit (ranges_to_mask rs) i"
    then obtain r p where "r \<in> set rs" "fst r \<le> p" "p \<le> snd r" "i = 32 - p"
      by (auto simp add: bit_ranges_to_mask)
    then show "bit m i" using on by blast
  next
    assume b: "bit m i"
    then have "i < 32" using assms(2,3) bit_32_bound by blast
    then have "1 \<le> 32 - i \<and> 32 - i \<le> 32 \<and> 32 - (32 - i) = i" by simp
    with b cov obtain r where "r \<in> set rs" "fst r \<le> 32 - i" "32 - i \<le> snd r"
      by (metis)
    then show "bit (ranges_to_mask rs) i"
      using \<open>i < 32\<close> unfolding bit_ranges_to_mask
      by (intro bexI [of _ r] exI [of _ "32 - i"]) simp_all
  qed
qed

text \<open>
  C2. For every 32-bit mask \<open>m\<close>, \<open>contiguous_bits m\<close> returns (without raising) ranges
  \<open>(start, end)\<close> with \<open>1 \<le> start \<le> end \<le> 32\<close> that are disjoint and ascending (each
  range ends before the next one starts); every position of a range is a set bit of
  \<open>m\<close>; each range is maximal (the position before \<open>start\<close> and the position after \<open>end\<close>
  are clear, where they exist); a position \<open>1 .. 32\<close> is a set bit of \<open>m\<close> exactly when some
  range contains it; OR-ing a single bit at every position of every range gives \<open>m\<close>
  back; and the zero mask has no ranges.
\<close>

theorem contiguous_bits_correct:
  assumes "0 \<le> m" "m < 2 ^ 32"
  shows "\<exists>rs. contiguous_bits m = Inr rs
     \<and> (\<forall>(s, e)\<in>set rs. 1 \<le> s \<and> s \<le> e \<and> e \<le> 32)
     \<and> sorted_wrt (\<lambda>(s, e) (s', e'). e < s') rs
     \<and> (\<forall>(s, e)\<in>set rs. \<forall>p. s \<le> p \<and> p \<le> e \<longrightarrow> is_bit_on m p = Inr True)
     \<and> (\<forall>(s, e)\<in>set rs. (1 < s \<longrightarrow> is_bit_on m (s - 1) = Inr False)
                       \<and> (e < 32 \<longrightarrow> is_bit_on m (e + 1) = Inr False))
     \<and> (\<forall>p. 1 \<le> p \<and> p \<le> 32 \<longrightarrow>
           (is_bit_on m p = Inr True \<longleftrightarrow> (\<exists>(s, e)\<in>set rs. s \<le> p \<and> p \<le> e)))
     \<and> ranges_to_mask rs = m
     \<and> contiguous_bits 0 = Inr []"
proof -
  obtain rs where rs: "contiguous_bits m = Inr rs" and runs: "runs_of m rs"
    using contiguous_bits_runs by blast
  have valid: "\<forall>r\<in>set rs. 1 \<le> fst r \<and> fst r \<le> snd r \<and> snd r \<le> 32"
    and st: "sorted_wrt (\<lambda>r r'. snd r + 1 < fst r') rs"
    and on: "\<forall>r\<in>set rs. \<forall>p. fst r \<le> p \<and> p \<le> snd r \<longrightarrow> bit m (32 - p)"
    and mx: "\<forall>r\<in>set rs. (1 < fst r \<longrightarrow> \<not> bit m (32 - (fst r - 1)))
                    \<and> (snd r < 32 \<longrightarrow> \<not> bit m (32 - (snd r + 1)))"
    and cov: "\<forall>p. 1 \<le> p \<and> p \<le> 32 \<and> bit m (32 - p) \<longrightarrow> (\<exists>r\<in>set rs. fst r \<le> p \<and> p \<le> snd r)"
    using runs by (simp_all add: runs_of_def)
  have c1: "\<forall>(s, e)\<in>set rs. 1 \<le> s \<and> s \<le> e \<and> e \<le> 32"
    using valid by auto
  have c2: "sorted_wrt (\<lambda>(s, e) (s', e'). e < s') rs"
    by (rule sorted_wrt_mono_rel [OF _ st]) auto
  have c3: "\<forall>(s, e)\<in>set rs. \<forall>p. s \<le> p \<and> p \<le> e \<longrightarrow> is_bit_on m p = Inr True"
  proof (clarify)
    fix s e p assume r: "(s, e) \<in> set rs" and p: "s \<le> p" "p \<le> e"
    with valid have "p \<le> 32" by fastforce
    moreover from on r p have "bit m (32 - p)" by fastforce
    ultimately show "is_bit_on m p = Inr True" by (simp add: is_bit_on_bit)
  qed
  have c4: "\<forall>(s, e)\<in>set rs. (1 < s \<longrightarrow> is_bit_on m (s - 1) = Inr False)
                       \<and> (e < 32 \<longrightarrow> is_bit_on m (e + 1) = Inr False)"
  proof (clarify, intro conjI impI)
    fix s e assume r: "(s, e) \<in> set rs"
    with valid have b: "s \<le> 32" "e \<le> 32" by fastforce+
    { assume "1 < s"
      with mx r have "\<not> bit m (32 - (s - 1))" by fastforce
      then show "is_bit_on m (s - 1) = Inr False" using b by (simp add: is_bit_on_bit) }
    { assume "e < 32"
      with mx r have "\<not> bit m (32 - (e + 1))" by fastforce
      then show "is_bit_on m (e + 1) = Inr False" using \<open>e < 32\<close> by (simp add: is_bit_on_bit) }
  qed
  have c5: "\<forall>p. 1 \<le> p \<and> p \<le> 32 \<longrightarrow>
           (is_bit_on m p = Inr True \<longleftrightarrow> (\<exists>(s, e)\<in>set rs. s \<le> p \<and> p \<le> e))"
  proof (intro allI impI)
    fix p :: nat assume p: "1 \<le> p \<and> p \<le> 32"
    then have eq: "is_bit_on m p = Inr (bit m (32 - p))" by (simp add: is_bit_on_bit)
    show "is_bit_on m p = Inr True \<longleftrightarrow> (\<exists>(s, e)\<in>set rs. s \<le> p \<and> p \<le> e)"
    proof
      assume "is_bit_on m p = Inr True"
      with eq have "bit m (32 - p)" by simp
      with cov p obtain r where "r \<in> set rs" "fst r \<le> p" "p \<le> snd r" by blast
      then show "\<exists>(s, e)\<in>set rs. s \<le> p \<and> p \<le> e" by (cases r) auto
    next
      assume "\<exists>(s, e)\<in>set rs. s \<le> p \<and> p \<le> e"
      with on have "bit m (32 - p)" by fastforce
      with eq show "is_bit_on m p = Inr True" by simp
    qed
  qed
  have c6: "ranges_to_mask rs = m"
    using runs assms by (rule ranges_to_mask_runs)
  have c7: "contiguous_bits 0 = Inr []"
    by code_simp
  from rs c1 c2 c3 c4 c5 c6 c7 show ?thesis by blast
qed

theorem contiguous_bits_correct_witness:
  "contiguous_bits 0xF0000002 = Inr [(1, 4), (31, 31)]
     \<and> ranges_to_mask [(1, 4), (31, 31)] = 0xF0000002"
proof -
  have h1: "(0::int) \<le> 0xF0000002" by simp
  have h2: "(0xF0000002::int) < 2 ^ 32" by simp
  from contiguous_bits_correct [OF h1 h2]
  obtain rs where "contiguous_bits 0xF0000002 = Inr rs" "ranges_to_mask rs = 0xF0000002"
    by blast
  moreover have "contiguous_bits 0xF0000002 = Inr [(1, 4), (31, 31)]"
    by code_simp
  ultimately show ?thesis by simp
qed

section \<open>The expander\<close>

lemma for_loop_pure:
  assumes "\<And>t x. x \<in> set xs \<Longrightarrow> body t x = Inr (f t x)"
  shows "for_loop body s xs = Inr (foldl f s xs)"
  using assms by (induction xs arbitrary: s) simp_all

lemma foldl_snoc_map: "foldl (\<lambda>acc x. acc @ [g x]) acc xs = acc @ map g xs"
  by (induction xs arbitrary: acc) simp_all

lemma foldl_append_concat: "foldl (\<lambda>acc x. acc @ h x) acc xs = acc @ concat (map h xs)"
  by (induction xs arbitrary: acc) simp_all

lemma code_mask_eq:
  assumes "e \<le> 32"
  shows "mask_from_slash (int s - 1) OR drop_bit e (mask_from_slash 32) = preservation_mask s e"
  unfolding preservation_mask_def
  using assms by (intro bit_eqI) (auto simp add: bit_simps bit_mask_from_slash)

lemma bit_preservation_mask:
  assumes "1 \<le> s" "s \<le> e" "e \<le> 32"
  shows "bit (preservation_mask s e) i \<longleftrightarrow> i < 32 \<and> (32 - s < i \<or> i < 32 - e)"
proof -
  have "nat (int s - 1) = s - 1" by simp
  then show ?thesis
    unfolding preservation_mask_def
    using assms by (auto simp add: bit_simps bit_mask_from_slash)
qed

lemma unroll_field_eq:
  assumes "e \<le> 32"
  shows "unroll_field s e prefix unrolled field =
     Inr (unrolled @ [(prefix AND preservation_mask s e) OR push_bit (32 - e) field])"
proof -
  have "nat (32 - int e) = 32 - e" using assms by simp
  then show ?thesis
    using assms by (simp add: unroll_field_def shr_def shl_def code_mask_eq)
qed

lemma unroll_prefix_eq:
  assumes "s \<le> e + 1" "e \<le> 32"
  shows "unroll_prefix s e unrolled prefix =
     Inr (unrolled @ map (\<lambda>field. (prefix AND preservation_mask s e) OR push_bit (32 - e) (int field))
                         [0..<2 ^ width (s, e)])"
proof -
  have bits: "\<not> int e - int s + 1 < 0" using assms(1) by simp
  have "for_loop (unroll_field s e prefix) unrolled (map int [0..<2 ^ width (s, e)]) =
      Inr (foldl (\<lambda>acc field. acc @ [(prefix AND preservation_mask s e) OR push_bit (32 - e) field])
             unrolled (map int [0..<2 ^ width (s, e)]))"
    by (rule for_loop_pure) (simp add: unroll_field_eq [OF assms(2)])
  then show ?thesis
    using bits by (simp add: unroll_prefix_def range_pow2_def width_def foldl_snoc_map comp_def)
qed

lemma unroll_range_eq:
  assumes "s \<le> e + 1" "e \<le> 32"
  shows "unroll_range (s, e) seeds = Inr (expansion (s, e) seeds)"
proof -
  have "for_loop (unroll_prefix s e) [] seeds =
      Inr (foldl (\<lambda>acc prefix. acc @ map (\<lambda>field. (prefix AND preservation_mask s e)
                                              OR push_bit (32 - e) (int field))
                                        [0..<2 ^ width (s, e)]) [] seeds)"
    by (rule for_loop_pure) (simp add: unroll_prefix_eq [OF assms])
  then show ?thesis
    by (simp add: unroll_range_def expansion_def foldl_append_concat)
qed

lemma length_expansion: "length (expansion r seeds) = length seeds * 2 ^ width r"
proof -
  obtain s e where r: "r = (s, e)" by (cases r)
  show ?thesis
    unfolding r expansion_def
    by (induction seeds) simp_all
qed

lemma width_valid: "s \<le> e + 1 \<Longrightarrow> width (s, e) = e + 1 - s"
  by (simp add: width_def nat_diff_distrib' of_nat_diff)

lemma bit_nat_bound:
  assumes "f < 2 ^ w" "bit (f::nat) j"
  shows "j < w"
proof -
  have "take_bit w f = f"
    using assms(1) by (simp add: take_bit_nat_eq_self_iff)
  then have "bit (take_bit w f) j"
    using assms(2) by simp
  then show ?thesis
    by (simp add: bit_take_bit_iff)
qed

lemma bit_candidate:
  assumes "1 \<le> s" "s \<le> e" "e \<le> 32" "f < 2 ^ width (s, e)" "1 \<le> p" "p \<le> 32"
  shows "bit ((seed AND preservation_mask s e) OR push_bit (32 - e) (int f)) (32 - p)
     \<longleftrightarrow> (if s \<le> p \<and> p \<le> e then bit f (e - p) else bit seed (32 - p))"
proof -
  have w: "width (s, e) = e + 1 - s"
    using assms(2) by (simp add: width_valid)
  have high: "\<not> bit f (e - p)" if "p < s"
  proof
    assume "bit f (e - p)"
    with assms(4) have "e - p < width (s, e)" by (rule bit_nat_bound)
    with w that assms(2) show False by simp
  qed
  have shifted: "bit (push_bit (32 - e) (int f)) (32 - p) \<longleftrightarrow> p \<le> e \<and> bit f (e - p)"
    using assms(3,6) by (auto simp add: bit_push_bit_iff bit_of_nat_iff_bit)
  have kept: "bit (preservation_mask s e) (32 - p) \<longleftrightarrow> p < s \<or> e < p"
    using assms(1,2,3,5,6) by (auto simp add: bit_preservation_mask)
  show ?thesis
    unfolding bit_or_iff bit_and_iff shifted kept using high by auto
qed

lemma bit_candidate_high:
  assumes "1 \<le> s" "s \<le> e" "e \<le> 32" "f < 2 ^ width (s, e)" "32 \<le> i"
  shows "\<not> bit ((seed AND preservation_mask s e) OR push_bit (32 - e) (int f)) i"
proof -
  have w: "width (s, e) = e + 1 - s"
    using assms(2) by (simp add: width_valid)
  have "\<not> bit f (i - (32 - e))"
  proof
    assume "bit f (i - (32 - e))"
    with assms(4) have "i - (32 - e) < width (s, e)" by (rule bit_nat_bound)
    with w assms(1,2,3,5) show False by simp
  qed
  then show ?thesis
    using assms(1,2,3,5)
    by (simp add: bit_or_iff bit_and_iff bit_preservation_mask bit_push_bit_iff bit_of_nat_iff_bit)
qed

lemma nth_concat_blocks:
  assumes "j < length xs * n"
  shows "concat (map (\<lambda>x. map (g x) [0..<n]) xs) ! j = g (xs ! (j div n)) (j mod n)"
  using assms
proof (induction xs arbitrary: j)
  case Nil
  then show ?case by simp
next
  case (Cons x xs)
  show ?case
  proof (cases "j < n")
    case True
    then show ?thesis by (simp add: nth_append)
  next
    case False
    then have ge: "n \<le> j" by simp
    from Cons.prems have n0: "0 < n" by (cases n) simp_all
    have lt: "j - n < length xs * n"
      using Cons.prems ge by simp
    have d: "j div n = Suc ((j - n) div n)"
      using ge n0 by (simp add: le_div_geq)
    have m: "j mod n = (j - n) mod n"
      using ge by (simp add: le_mod_geq)
    show ?thesis
      using False Cons.IH [OF lt] by (simp add: nth_append d m)
  qed
qed

lemma nth_expansion:
  assumes "j < length seeds * 2 ^ width (s, e)"
  shows "expansion (s, e) seeds ! j =
     (seeds ! (j div 2 ^ width (s, e)) AND preservation_mask s e)
       OR push_bit (32 - e) (int (j mod 2 ^ width (s, e)))"
  unfolding expansion_def using nth_concat_blocks [OF assms] by simp

lemma total_width_Cons: "total_width (r # rs) = width r + total_width rs"
  by (simp add: total_width_def)

lemma unroller_Cons_eq:
  assumes "s \<le> e + 1" "e \<le> 32"
  shows "unroller ((s, e) # rs) seeds = unroller rs (expansion (s, e) seeds)"
  by (simp add: unroll_range_eq [OF assms])

lemma unroller_preserves:
  assumes "\<forall>r\<in>set rs. 1 \<le> fst r \<and> fst r \<le> snd r \<and> snd r \<le> 32"
  shows "\<exists>out. unroller rs seeds = Inr out
     \<and> length out = length seeds * 2 ^ total_width rs
     \<and> (\<forall>j<length out. \<forall>p. 1 \<le> p \<and> p \<le> 32 \<and> \<not> in_ranges rs p \<longrightarrow>
           bit (out ! j) (32 - p) = bit (seeds ! (j div 2 ^ total_width rs)) (32 - p))"
  using assms
proof (induction rs arbitrary: seeds)
  case Nil
  then show ?case by (simp add: total_width_def)
next
  case (Cons r rs)
  obtain s e where r: "r = (s, e)" by (cases r)
  from Cons.prems r have v: "1 \<le> s" "s \<le> e" "e \<le> 32" by simp_all
  let ?w = "width (s, e)" and ?W = "total_width rs"
  let ?ex = "expansion (s, e) seeds"
  from Cons.prems have "\<forall>r\<in>set rs. 1 \<le> fst r \<and> fst r \<le> snd r \<and> snd r \<le> 32" by simp
  from Cons.IH [OF this, of ?ex]
  obtain out where out: "unroller rs ?ex = Inr out"
    and len: "length out = length ?ex * 2 ^ ?W"
    and agree: "\<forall>j<length out. \<forall>p. 1 \<le> p \<and> p \<le> 32 \<and> \<not> in_ranges rs p \<longrightarrow>
           bit (out ! j) (32 - p) = bit (?ex ! (j div 2 ^ ?W)) (32 - p)"
    by blast
  have "unroller ((s, e) # rs) seeds = unroller rs ?ex"
    using v by (intro unroller_Cons_eq) simp_all
  with out have run: "unroller (r # rs) seeds = Inr out"
    unfolding r by simp
  have len': "length out = length seeds * 2 ^ total_width (r # rs)"
    using len unfolding r by (simp add: length_expansion total_width_Cons power_add)
  have agree': "bit (out ! j) (32 - p) = bit (seeds ! (j div 2 ^ total_width (r # rs))) (32 - p)"
    if j: "j < length out" and p: "1 \<le> p" "p \<le> 32" and np: "\<not> in_ranges (r # rs) p" for j p
  proof -
    from np have np1: "\<not> (s \<le> p \<and> p \<le> e)" and np2: "\<not> in_ranges rs p"
      unfolding r by (simp_all add: in_ranges_def)
    let ?k = "j div 2 ^ ?W"
    have k: "?k < length seeds * 2 ^ ?w"
      using j len by (simp add: length_expansion less_mult_imp_div_less)
    have f: "?k mod 2 ^ ?w < 2 ^ ?w" by simp
    have "bit (out ! j) (32 - p) = bit (?ex ! ?k) (32 - p)"
      using agree j p np2 by simp
    also have "\<dots> = bit (seeds ! (?k div 2 ^ ?w)) (32 - p)"
      unfolding nth_expansion [OF k]
      using bit_candidate [OF v f p, of "seeds ! (?k div 2 ^ ?w)"] np1 by simp
    also have "?k div 2 ^ ?w = j div 2 ^ total_width (r # rs)"
      unfolding r by (simp add: total_width_Cons power_add div_mult2_eq mult.commute)
    finally show ?thesis .
  qed
  from run len' agree' show ?case by blast
qed

text \<open>
  C4. For a head range \<open>(start, end)\<close> with \<open>1 \<le> start \<le> end \<le> 32\<close>, the expander
  produces exactly the candidates
  \<open>(seed AND preservation_mask) OR (field << (32 - end))\<close>, grouped by seed in the order of
  the seeds and, for one seed, by ascending \<open>field\<close> in \<open>0 ..< 2^(end - start + 1)\<close>.
  The mask the script computes is the preservation mask of the specification,
  \<open>mask_from_slash (start - 1)\<close> OR the 32-bit complement of \<open>mask_from_slash end\<close>; it
  keeps the bits above \<open>start\<close> and below \<open>end\<close> and clears the bits of the range. These
  candidates are the seeds of the expansion of the remaining ranges.
\<close>

theorem unroll_range_candidates:
  assumes "1 \<le> s" "s \<le> e" "e \<le> 32"
  shows "unroll_range (s, e) seeds =
       Inr (concat (map (\<lambda>seed. map (\<lambda>field. (seed AND preservation_mask s e)
                                               OR push_bit (32 - e) (int field))
                                  [0..<2 ^ (e - s + 1)]) seeds))
     \<and> mask_from_slash (int s - 1) OR drop_bit e (mask_from_slash 32) = preservation_mask s e
     \<and> (\<forall>i. bit (preservation_mask s e) i \<longleftrightarrow> i < 32 \<and> (32 - s < i \<or> i < 32 - e))
     \<and> unroller ((s, e) # rs) seeds =
         unroller rs (concat (map (\<lambda>seed. map (\<lambda>field. (seed AND preservation_mask s e)
                                                       OR push_bit (32 - e) (int field))
                                          [0..<2 ^ (e - s + 1)]) seeds))"
proof -
  have w: "width (s, e) = e - s + 1"
    using assms(2) by (simp add: width_valid)
  have se: "s \<le> e + 1"
    using assms(2) by simp
  have ex: "expansion (s, e) seeds =
      concat (map (\<lambda>seed. map (\<lambda>field. (seed AND preservation_mask s e)
                                         OR push_bit (32 - e) (int field))
                            [0..<2 ^ (e - s + 1)]) seeds)"
    unfolding expansion_def w by simp
  have a: "unroll_range (s, e) seeds = Inr (expansion (s, e) seeds)"
    using se assms(3) by (rule unroll_range_eq)
  have b: "mask_from_slash (int s - 1) OR drop_bit e (mask_from_slash 32) = preservation_mask s e"
    using assms(3) by (rule code_mask_eq)
  have c: "\<forall>i. bit (preservation_mask s e) i \<longleftrightarrow> i < 32 \<and> (32 - s < i \<or> i < 32 - e)"
    using bit_preservation_mask [OF assms] by blast
  have d: "unroller ((s, e) # rs) seeds = unroller rs (expansion (s, e) seeds)"
    using se assms(3) by (rule unroller_Cons_eq)
  from a b c d show ?thesis
    unfolding ex by blast
qed

theorem unroll_range_candidates_witness:
  "unroll_range (1, 4) [0x0A0C0E10] =
     Inr (map (\<lambda>field. (0x0A0C0E10 AND preservation_mask 1 4) OR push_bit 28 (int field))
            [0..<16])"
proof -
  have h: "(1::nat) \<le> 1" "(1::nat) \<le> 4" "(4::nat) \<le> 32" by simp_all
  from unroll_range_candidates [OF h, of "[0x0A0C0E10]"]
  have "unroll_range (1, 4) [0x0A0C0E10] =
       Inr (concat (map (\<lambda>seed. map (\<lambda>field. (seed AND preservation_mask 1 4)
                                               OR push_bit (32 - 4) (int field))
                                  [0..<2 ^ (4 - 1 + 1)]) [0x0A0C0E10]))"
    by blast
  then show ?thesis by simp
qed

text \<open>
  C9. For ranges with \<open>1 \<le> start \<le> end \<le> 32\<close>, the expander returns
  \<open>length seeds * 2^w\<close> candidates, \<open>w\<close> the total width; candidate \<open>j\<close> originates from
  seed \<open>j div 2^w\<close> and agrees with it on every position \<open>1 .. 32\<close> that lies in none of
  the processed ranges.
\<close>

theorem unroller_fixed_bits:
  assumes "\<forall>(s, e)\<in>set rs. 1 \<le> s \<and> s \<le> e \<and> e \<le> 32"
  shows "\<exists>out. unroller rs seeds = Inr out
     \<and> length out = length seeds * 2 ^ total_width rs
     \<and> (\<forall>j<length out. \<forall>p. 1 \<le> p \<and> p \<le> 32 \<and> \<not> in_ranges rs p \<longrightarrow>
           bit (out ! j) (32 - p) = bit (seeds ! (j div 2 ^ total_width rs)) (32 - p))"
proof -
  have "\<forall>r\<in>set rs. 1 \<le> fst r \<and> fst r \<le> snd r \<and> snd r \<le> 32"
    using assms by auto
  then show ?thesis by (rule unroller_preserves)
qed

theorem unroller_fixed_bits_witness:
  "\<exists>out. unroller [(1, 4), (31, 31)] [0x0A0C0E10 :: int] = Inr out
     \<and> length out = 1 * 2 ^ total_width [(1, 4), (31, 31)]
     \<and> (\<forall>j<length out. \<forall>p. 1 \<le> p \<and> p \<le> 32 \<and> \<not> in_ranges [(1, 4), (31, 31)] p \<longrightarrow>
           bit (out ! j) (32 - p)
             = bit ([0x0A0C0E10 :: int] ! (j div 2 ^ total_width [(1, 4), (31, 31)])) (32 - p))"
proof -
  have h: "\<forall>(s, e)\<in>set [(1::nat, 4::nat), (31, 31)]. 1 \<le> s \<and> s \<le> e \<and> e \<le> 32"
    by simp
  from unroller_fixed_bits [OF h, of "[0x0A0C0E10]"] show ?thesis
    by simp
qed

lemma bit_candidate_inside:
  assumes "1 \<le> s" "s \<le> e" "e \<le> 32" "f < 2 ^ width (s, e)" "s \<le> p" "p \<le> e"
  shows "bit ((seed AND preservation_mask s e) OR push_bit (32 - e) (int f)) (32 - p)
     = bit f (e - p)"
proof -
  have "1 \<le> p" "p \<le> 32" using assms by simp_all
  from bit_candidate [OF assms(1-4) this, of seed] assms(5,6) show ?thesis by simp
qed

lemma bit_candidate_outside:
  assumes "1 \<le> s" "s \<le> e" "e \<le> 32" "f < 2 ^ width (s, e)" "1 \<le> p" "p \<le> 32"
    "\<not> (s \<le> p \<and> p \<le> e)"
  shows "bit ((seed AND preservation_mask s e) OR push_bit (32 - e) (int f)) (32 - p)
     = bit seed (32 - p)"
  using bit_candidate [OF assms(1-6), of seed] assms(7) by simp

lemma expansion_product:
  "expansion (s, e) xs =
     map (\<lambda>(x, f). (x AND preservation_mask s e) OR push_bit (32 - e) (int f))
       (List.product xs [0..<2 ^ width (s, e)])"
  unfolding expansion_def by (induction xs) simp_all

lemma fields_equal:
  assumes "f < 2 ^ w" "f' < 2 ^ w" "\<forall>j<w. bit (f::nat) j = bit f' j"
  shows "f = f'"
proof (rule bit_eqI)
  fix j
  show "bit f j \<longleftrightarrow> bit f' j"
  proof (cases "j < w")
    case True
    with assms(3) show ?thesis by simp
  next
    case False
    with assms(1,2) bit_nat_bound [of f w j] bit_nat_bound [of f' w j]
    show ?thesis by blast
  qed
qed

lemma candidate_determines:
  assumes v: "1 \<le> s" "s \<le> e" "e \<le> 32"
    and sep: "separated P xs" and P: "P \<subseteq> {1..32}" "P \<inter> {s..e} = {}"
    and x: "x \<in> set xs" "y \<in> set xs" and f: "f < 2 ^ width (s, e)" "f' < 2 ^ width (s, e)"
    and agree: "\<forall>p\<in>P \<union> {s..e}.
        bit ((x AND preservation_mask s e) OR push_bit (32 - e) (int f)) (32 - p)
      = bit ((y AND preservation_mask s e) OR push_bit (32 - e) (int f')) (32 - p)"
  shows "x = y \<and> f = f'"
proof
  have "\<forall>p\<in>P. bit x (32 - p) = bit y (32 - p)"
  proof
    fix p assume p: "p \<in> P"
    with P have b: "1 \<le> p" "p \<le> 32" and out: "\<not> (s \<le> p \<and> p \<le> e)" by auto
    from agree p have "bit ((x AND preservation_mask s e) OR push_bit (32 - e) (int f)) (32 - p)
       = bit ((y AND preservation_mask s e) OR push_bit (32 - e) (int f')) (32 - p)"
      by blast
    then show "bit x (32 - p) = bit y (32 - p)"
      unfolding bit_candidate_outside [OF v f(1) b out] bit_candidate_outside [OF v f(2) b out] .
  qed
  with sep x show "x = y" by (simp add: separated_def)
  have w: "width (s, e) = e + 1 - s"
    using v(2) by (simp add: width_valid)
  have "\<forall>j<width (s, e). bit f j = bit f' j"
  proof (intro allI impI)
    fix j assume j: "j < width (s, e)"
    let ?p = "e - j"
    from j w v have b: "1 \<le> ?p" "?p \<le> 32" and inside: "s \<le> ?p \<and> ?p \<le> e" and ret: "e - ?p = j"
      by simp_all
    from inside have "?p \<in> P \<union> {s..e}" by simp
    with agree have a:
        "bit ((x AND preservation_mask s e) OR push_bit (32 - e) (int f)) (32 - ?p)
       = bit ((y AND preservation_mask s e) OR push_bit (32 - e) (int f')) (32 - ?p)"
      by (rule bspec)
    have "bit ((x AND preservation_mask s e) OR push_bit (32 - e) (int f)) (32 - ?p)
        = bit f (e - ?p)"
      using inside by (intro bit_candidate_inside [OF v f(1)]) simp_all
    moreover have "bit ((y AND preservation_mask s e) OR push_bit (32 - e) (int f')) (32 - ?p)
        = bit f' (e - ?p)"
      using inside by (intro bit_candidate_inside [OF v f(2)]) simp_all
    ultimately have "bit f (e - ?p) = bit f' (e - ?p)"
      using a by (simp only:)
    then show "bit f j = bit f' j"
      by (simp only: ret)
  qed
  with f show "f = f'" by (rule fields_equal)
qed

lemma separated_expansion:
  assumes v: "1 \<le> s" "s \<le> e" "e \<le> 32"
    and sep: "separated P xs" and P: "P \<subseteq> {1..32}" "P \<inter> {s..e} = {}"
  shows "separated (P \<union> {s..e}) (expansion (s, e) xs)"
proof -
  let ?g = "\<lambda>(x, f). (x AND preservation_mask s e) OR push_bit (32 - e) (int f)"
  let ?fs = "[0..<2 ^ width (s, e)]"
  have det: "a = b"
    if "a \<in> set (List.product xs ?fs)" "b \<in> set (List.product xs ?fs)"
      "\<forall>p\<in>P \<union> {s..e}. bit (?g a) (32 - p) = bit (?g b) (32 - p)" for a b
  proof -
    obtain x f y f' where ab: "a = (x, f)" "b = (y, f')" by (cases a, cases b)
    with that(1,2) have m: "x \<in> set xs" "y \<in> set xs" "f < 2 ^ width (s, e)" "f' < 2 ^ width (s, e)"
      by simp_all
    from that(3) have "\<forall>p\<in>P \<union> {s..e}.
        bit ((x AND preservation_mask s e) OR push_bit (32 - e) (int f)) (32 - p)
      = bit ((y AND preservation_mask s e) OR push_bit (32 - e) (int f')) (32 - p)"
      unfolding ab by simp
    from candidate_determines [OF v sep P m this] show ?thesis
      unfolding ab by simp
  qed
  have "inj_on ?g (set (List.product xs ?fs))"
    by (rule inj_onI) (rule det, simp_all)
  moreover have "distinct (List.product xs ?fs)"
    using sep by (simp add: separated_def distinct_product)
  ultimately have d: "distinct (expansion (s, e) xs)"
    unfolding expansion_product by (simp add: distinct_map)
  have "c = c'"
    if "c \<in> set (expansion (s, e) xs)" "c' \<in> set (expansion (s, e) xs)"
      "\<forall>p\<in>P \<union> {s..e}. bit c (32 - p) = bit c' (32 - p)" for c c'
  proof -
    from that(1,2) obtain a b where ab: "a \<in> set (List.product xs ?fs)" "c = ?g a"
      "b \<in> set (List.product xs ?fs)" "c' = ?g b"
      unfolding expansion_product by auto
    with that(3) det [of a b] show ?thesis by simp
  qed
  with d show ?thesis
    unfolding separated_def by blast
qed

lemma unroller_separated:
  assumes "\<forall>r\<in>set rs. 1 \<le> fst r \<and> fst r \<le> snd r \<and> snd r \<le> 32"
    and "sorted_wrt (\<lambda>r r'. snd r < fst r' \<or> snd r' < fst r) rs"
    and "P \<subseteq> {1..32}" and "\<forall>r\<in>set rs. P \<inter> {fst r..snd r} = {}"
    and "separated P xs"
  shows "\<exists>out. unroller rs xs = Inr out \<and> distinct out"
  using assms
proof (induction rs arbitrary: P xs)
  case Nil
  then show ?case by (simp add: separated_def)
next
  case (Cons r rs)
  obtain s e where r: "r = (s, e)" by (cases r)
  from Cons.prems(1) r have v: "1 \<le> s" "s \<le> e" "e \<le> 32" by simp_all
  from Cons.prems(4) r have Pse: "P \<inter> {s..e} = {}" by simp
  have sep': "separated (P \<union> {s..e}) (expansion (s, e) xs)"
    using v Cons.prems(5) Cons.prems(3) Pse by (rule separated_expansion)
  have 1: "\<forall>r\<in>set rs. 1 \<le> fst r \<and> fst r \<le> snd r \<and> snd r \<le> 32"
    using Cons.prems(1) by simp
  have 2: "sorted_wrt (\<lambda>r r'. snd r < fst r' \<or> snd r' < fst r) rs"
    using Cons.prems(2) by simp
  have 3: "P \<union> {s..e} \<subseteq> {1..32}"
    using Cons.prems(3) v by auto
  have 4: "\<forall>r'\<in>set rs. (P \<union> {s..e}) \<inter> {fst r'..snd r'} = {}"
  proof
    fix r' assume r': "r' \<in> set rs"
    with Cons.prems(2) have "e < fst r' \<or> snd r' < s" unfolding r by auto
    then have "{s..e} \<inter> {fst r'..snd r'} = {}" by auto
    moreover from Cons.prems(4) r' have "P \<inter> {fst r'..snd r'} = {}" by simp
    ultimately show "(P \<union> {s..e}) \<inter> {fst r'..snd r'} = {}" by blast
  qed
  from Cons.IH [OF 1 2 3 4 sep']
  obtain out where "unroller rs (expansion (s, e) xs) = Inr out" "distinct out" by blast
  moreover have "unroller ((s, e) # rs) xs = unroller rs (expansion (s, e) xs)"
    using v by (intro unroller_Cons_eq) simp_all
  ultimately show ?case unfolding r by simp
qed

text \<open>The ranges found for a mask, with or without the last one, can be expanded.\<close>

lemma found_ranges_expandable:
  assumes "contiguous_bits m = Inr rs"
  shows "(\<forall>(s, e)\<in>set rs. 1 \<le> s \<and> s \<le> e \<and> e \<le> 32)
     \<and> sorted_wrt (\<lambda>(s, e) (s', e'). e < s' \<or> e' < s) rs
     \<and> (\<forall>(s, e)\<in>set (butlast rs). 1 \<le> s \<and> s \<le> e \<and> e \<le> 32)
     \<and> sorted_wrt (\<lambda>(s, e) (s', e'). e < s' \<or> e' < s) (butlast rs)"
proof -
  from contiguous_bits_runs [of m] assms have "runs_of m rs" by auto
  then have valid: "\<forall>r\<in>set rs. 1 \<le> fst r \<and> fst r \<le> snd r \<and> snd r \<le> 32"
    and st: "sorted_wrt (\<lambda>r r'. snd r + 1 < fst r') rs"
    by (simp_all add: runs_of_def)
  have a: "\<forall>(s, e)\<in>set rs. 1 \<le> s \<and> s \<le> e \<and> e \<le> 32"
    using valid by auto
  have b: "sorted_wrt (\<lambda>(s, e) (s', e'). e < s' \<or> e' < s) rs"
    by (rule sorted_wrt_mono_rel [OF _ st]) auto
  have c: "\<forall>(s, e)\<in>set (butlast rs). 1 \<le> s \<and> s \<le> e \<and> e \<le> 32"
    using a by (auto dest: in_set_butlastD)
  have d: "sorted_wrt (\<lambda>(s, e) (s', e'). e < s' \<or> e' < s) (butlast rs)"
    using b unfolding butlast_conv_take by (rule sorted_wrt_take)
  from a b c d show ?thesis by blast
qed

text \<open>
  C3. For ranges with \<open>1 \<le> start \<le> end \<le> 32\<close> that are pairwise disjoint (as the ranges
  found for one mask are, \<open>found_ranges_expandable\<close>) and of total width \<open>w\<close>, the expander returns, from a single seed,
  exactly \<open>2^w\<close> candidates without duplicates. From any seeds it returns
  \<open>length seeds * 2^w\<close> candidates, and each single range of width \<open>end - start + 1\<close>
  multiplies the number of seeds by \<open>2^(end - start + 1)\<close>.
\<close>

theorem unroller_cardinality:
  assumes "\<forall>(s, e)\<in>set rs. 1 \<le> s \<and> s \<le> e \<and> e \<le> 32"
    and "sorted_wrt (\<lambda>(s, e) (s', e'). e < s' \<or> e' < s) rs"
  shows "(\<exists>out. unroller rs [seed] = Inr out \<and> length out = 2 ^ total_width rs \<and> distinct out)
     \<and> (\<forall>seeds. \<exists>out. unroller rs seeds = Inr out
                       \<and> length out = length seeds * 2 ^ total_width rs)
     \<and> (\<forall>(s, e)\<in>set rs. \<forall>seeds. \<exists>new. unroll_range (s, e) seeds = Inr new
                       \<and> length new = length seeds * 2 ^ (e - s + 1))"
proof -
  have valid: "\<forall>r\<in>set rs. 1 \<le> fst r \<and> fst r \<le> snd r \<and> snd r \<le> 32"
    using assms(1) by auto
  have disj: "sorted_wrt (\<lambda>r r'. snd r < fst r' \<or> snd r' < fst r) rs"
    by (rule sorted_wrt_mono_rel [OF _ assms(2)]) auto
  have count: "\<exists>out. unroller rs seeds = Inr out \<and> length out = length seeds * 2 ^ total_width rs"
    for seeds
    using unroller_preserves [OF valid, of seeds] by blast
  have "separated {} [seed]"
    by (simp add: separated_def)
  with unroller_separated [OF valid disj, of "{}" "[seed]"]
  obtain out where out: "unroller rs [seed] = Inr out" "distinct out" by auto
  with count [of "[seed]"] have single:
    "\<exists>out. unroller rs [seed] = Inr out \<and> length out = 2 ^ total_width rs \<and> distinct out"
    by auto
  have step: "\<forall>(s, e)\<in>set rs. \<forall>seeds. \<exists>new. unroll_range (s, e) seeds = Inr new
                       \<and> length new = length seeds * 2 ^ (e - s + 1)"
  proof (clarify)
    fix s e seeds assume "(s, e) \<in> set rs"
    with assms(1) have v: "s \<le> e" "e \<le> 32" by auto
    then have "unroll_range (s, e) seeds = Inr (expansion (s, e) seeds)"
      by (intro unroll_range_eq) simp_all
    moreover have "e + 1 - s = e - s + 1"
      using v by simp
    then have "length (expansion (s, e) seeds) = length seeds * 2 ^ (e - s + 1)"
      using v by (simp only: length_expansion width_valid trans_le_add1)
    ultimately show "\<exists>new. unroll_range (s, e) seeds = Inr new
                       \<and> length new = length seeds * 2 ^ (e - s + 1)" by blast
  qed
  from single count step show ?thesis by blast
qed

theorem unroller_cardinality_witness:
  "\<exists>out. unroller [(1, 4), (31, 31)] [0x0A0C0E10] = Inr out
     \<and> length out = 2 ^ total_width [(1, 4), (31, 31)] \<and> distinct out"
proof -
  have h1: "\<forall>(s, e)\<in>set [(1::nat, 4::nat), (31, 31)]. 1 \<le> s \<and> s \<le> e \<and> e \<le> 32"
    by simp
  have h2: "sorted_wrt (\<lambda>(s, e) (s', e'). e < s' \<or> e' < s) [(1::nat, 4::nat), (31, 31)]"
    by simp
  from unroller_cardinality [OF h1 h2, of "0x0A0C0E10"] show ?thesis
    by blast
qed

section \<open>The normalizer\<close>

lemma all_ones: "(0xFFFFFFFF::int) = mask 32"
  by (simp add: mask_eq_exp_minus_1)

lemma netmask_of_prefix_eq:
  assumes "0 \<le> p" "p \<le> 32"
  shows "netmask_of_prefix p = mask_from_slash p"
  unfolding netmask_of_prefix_def all_ones
  using assms by (intro bit_eqI) (auto simp add: bit_simps bit_mask_from_slash)

lemma masked_range: "0 \<le> c AND mask_from_slash n \<and> c AND mask_from_slash n \<le> 0xFFFFFFFF"
proof -
  have "take_bit 32 (c AND mask_from_slash n) = c AND mask_from_slash n"
    by (rule bit_eqI) (auto simp add: bit_simps bit_mask_from_slash)
  then have "0 \<le> c AND mask_from_slash n \<and> c AND mask_from_slash n < 2 ^ 32"
    using take_bit_int_eq_self_iff [of 32 "c AND mask_from_slash n"] by blast
  then show ?thesis by simp
qed

lemma network_pair_ok:
  assumes "1 \<le> s" "s \<le> 33"
  shows "IPv4Network_pair (c AND mask_from_slash (int s - 1)) (int s - 1) =
     Inr \<lparr>network_address = c AND mask_from_slash (int s - 1), prefixlen = int s - 1\<rparr>"
proof -
  have p: "0 \<le> int s - 1" "int s - 1 \<le> 32"
    using assms by simp_all
  have "(c AND mask_from_slash (int s - 1)) AND netmask_of_prefix (int s - 1)
      = c AND mask_from_slash (int s - 1)"
    unfolding netmask_of_prefix_eq [OF p] by (simp add: and.assoc)
  moreover have "\<not> (c AND mask_from_slash (int s - 1) < 0
      \<or> 0xFFFFFFFF < c AND mask_from_slash (int s - 1))"
    using masked_range [of c "int s - 1"] by linarith
  moreover have "\<not> (int s - 1 < 0 \<or> 32 < int s - 1)"
    using p by linarith
  ultimately show ?thesis
    unfolding IPv4Network_pair_def by (simp only: if_False simp_thms)
qed

lemma network_int_ok:
  assumes "0 \<le> c" "c < 2 ^ 32"
  shows "IPv4Network_int c = Inr \<lparr>network_address = c, prefixlen = 32\<rparr>"
  using assms by (simp add: IPv4Network_int_def)

lemma process_some:
  assumes "1 \<le> s" "s \<le> 33"
  shows "process (Some (s, e)) cands =
     Inr (map (\<lambda>c. \<lparr>network_address = c AND mask_from_slash (int s - 1),
                     prefixlen = int s - 1\<rparr>) cands)"
proof -
  have "for_loop (process_address (Some (s, e))) [] cands =
      Inr (foldl (\<lambda>acc c. acc @ [\<lparr>network_address = c AND mask_from_slash (int s - 1),
                                   prefixlen = int s - 1\<rparr>]) [] cands)"
    by (rule for_loop_pure) (simp add: process_address_def network_pair_ok [OF assms])
  then show ?thesis
    by (simp add: process_def foldl_snoc_map)
qed

lemma process_none:
  assumes "\<forall>c\<in>set cands. 0 \<le> c \<and> c < 2 ^ 32"
  shows "process None cands = Inr (map (\<lambda>c. \<lparr>network_address = c, prefixlen = 32\<rparr>) cands)"
proof -
  have "for_loop (process_address None) [] cands =
      Inr (foldl (\<lambda>acc c. acc @ [\<lparr>network_address = c, prefixlen = 32\<rparr>]) [] cands)"
    using assms by (intro for_loop_pure) (simp add: process_address_def network_int_ok)
  then show ?thesis
    by (simp add: process_def foldl_snoc_map)
qed

lemma int_range_of_bits:
  assumes "\<And>i. 32 \<le> i \<Longrightarrow> \<not> bit (c::int) i"
  shows "0 \<le> c \<and> c < 2 ^ 32"
proof -
  have "take_bit 32 c = c"
  proof (rule bit_eqI)
    fix i
    show "bit (take_bit 32 c) i \<longleftrightarrow> bit c i"
      using assms [of i] by (cases "i < 32") (simp_all add: bit_take_bit_iff)
  qed
  then show ?thesis
    using take_bit_int_eq_self_iff [of 32 c] by blast
qed

lemma candidate_range:
  assumes "1 \<le> s" "s \<le> e" "e \<le> 32" "f < 2 ^ width (s, e)"
  shows "0 \<le> (seed AND preservation_mask s e) OR push_bit (32 - e) (int f)
     \<and> (seed AND preservation_mask s e) OR push_bit (32 - e) (int f) < 2 ^ 32"
  by (rule int_range_of_bits) (rule bit_candidate_high [OF assms])

lemma expansion_range:
  assumes "1 \<le> s" "s \<le> e" "e \<le> 32"
  shows "\<forall>c\<in>set (expansion (s, e) xs). 0 \<le> c \<and> c < 2 ^ 32"
proof
  fix c assume "c \<in> set (expansion (s, e) xs)"
  then obtain x f where "f < 2 ^ width (s, e)"
    and "c = (x AND preservation_mask s e) OR push_bit (32 - e) (int f)"
    unfolding expansion_product by auto
  with candidate_range [OF assms, of f x] show "0 \<le> c \<and> c < 2 ^ 32" by simp
qed

lemma unroller_range:
  assumes "\<forall>r\<in>set rs. 1 \<le> fst r \<and> fst r \<le> snd r \<and> snd r \<le> 32"
    and "\<forall>x\<in>set xs. 0 \<le> x \<and> x < 2 ^ 32"
    and "unroller rs xs = Inr out"
  shows "\<forall>c\<in>set out. 0 \<le> c \<and> c < 2 ^ 32"
  using assms
proof (induction rs arbitrary: xs)
  case Nil
  then show ?case by simp
next
  case (Cons r rs)
  obtain s e where r: "r = (s, e)" by (cases r)
  from Cons.prems(1) r have v: "1 \<le> s" "s \<le> e" "e \<le> 32" by simp_all
  have "unroller ((s, e) # rs) xs = unroller rs (expansion (s, e) xs)"
    using v by (intro unroller_Cons_eq) simp_all
  with Cons.prems(3) have "unroller rs (expansion (s, e) xs) = Inr out"
    unfolding r by simp
  moreover have "\<forall>r\<in>set rs. 1 \<le> fst r \<and> fst r \<le> snd r \<and> snd r \<le> 32"
    using Cons.prems(1) by simp
  ultimately show ?case
    using Cons.IH [of "expansion (s, e) xs"] expansion_range [OF v, of xs] by blast
qed

text \<open>
  C10. When a trailing range with start \<open>s\<close> (\<open>1 \<le> s \<le> 32\<close>) is present, the value
  \<open>candidate AND mask_from_slash (s - 1)\<close> has every bit at the positions \<open>s .. 32\<close>
  clear, whatever the candidate. So \<open>IPv4Network((network, s - 1))\<close> is constructed: it
  does not raise ValueError for host bits (nor any other error), and the loop body
  appends the network with prefix length \<open>s - 1\<close>.
\<close>

theorem trailing_network_constructs:
  assumes "1 \<le> s" "s \<le> 32"
  shows "(\<forall>p. s \<le> p \<and> p \<le> 32 \<longrightarrow> \<not> bit (candidate AND mask_from_slash (int s - 1)) (32 - p))
     \<and> IPv4Network_pair (candidate AND mask_from_slash (int s - 1)) (int s - 1) =
         Inr \<lparr>network_address = candidate AND mask_from_slash (int s - 1),
              prefixlen = int s - 1\<rparr>
     \<and> IPv4Network_pair (candidate AND mask_from_slash (int s - 1)) (int s - 1) \<noteq> Inl ValueError
     \<and> process_address (Some (s, e)) processed candidate =
         Inr (processed @ [\<lparr>network_address = candidate AND mask_from_slash (int s - 1),
                             prefixlen = int s - 1\<rparr>])"
proof -
  have n: "nat (int s - 1) = s - 1" by simp
  have clear: "\<forall>p. s \<le> p \<and> p \<le> 32 \<longrightarrow> \<not> bit (candidate AND mask_from_slash (int s - 1)) (32 - p)"
    using assms by (auto simp add: bit_and_iff bit_mask_from_slash n)
  have s33: "s \<le> 33" using assms(2) by simp
  note ok = network_pair_ok [OF assms(1) s33, of candidate]
  have "process_address (Some (s, e)) processed candidate =
         Inr (processed @ [\<lparr>network_address = candidate AND mask_from_slash (int s - 1),
                             prefixlen = int s - 1\<rparr>])"
    by (simp add: process_address_def ok)
  with clear ok show ?thesis by simp
qed

theorem trailing_network_constructs_witness:
  "IPv4Network_pair (0x0A0C0E10 AND mask_from_slash (int 32 - 1)) (int 32 - 1) =
     Inr \<lparr>network_address = 0x0A0C0E10 AND mask_from_slash (int 32 - 1), prefixlen = int 32 - 1\<rparr>"
proof -
  have h: "(1::nat) \<le> 32" "(32::nat) \<le> 32" by simp_all
  from trailing_network_constructs [OF h, of "0x0A0C0E10"] show ?thesis by blast
qed

text \<open>
  C5. The result loop with a trailing range of start \<open>s\<close> turns each candidate, in order,
  into the subnet \<open>candidate AND mask_from_slash (s - 1)\<close> with prefix length \<open>s - 1\<close>;
  without a trailing range it turns each 32-bit candidate, in order, into the single host
  with prefix length 32. In \<open>unroll\<close>, for a mask with at least one range: when the last
  range found ends at position 32 it is set aside, the other ranges are expanded and the
  results are the subnets for its start; otherwise all ranges are expanded and the
  results are the single hosts. (A mask without ranges does not reach the result loop,
  see C1.)
\<close>

theorem normalizer_results:
  "(\<forall>s e. 1 \<le> s \<and> s \<le> 32 \<longrightarrow>
       process (Some (s, e)) cands =
         Inr (map (\<lambda>c. \<lparr>network_address = c AND mask_from_slash (int s - 1),
                         prefixlen = int s - 1\<rparr>) cands))
   \<and> ((\<forall>c\<in>set cands. 0 \<le> c \<and> c < 2 ^ 32) \<longrightarrow>
       process None cands = Inr (map (\<lambda>c. \<lparr>network_address = c, prefixlen = 32\<rparr>) cands))
   \<and> (\<forall>rs. contiguous_bits m = Inr rs \<and> rs \<noteq> [] \<and> 0 \<le> a \<and> a < 2 ^ 32 \<longrightarrow>
        (if snd (last rs) = 32
         then \<exists>cs. unroller (butlast rs) [a] = Inr cs
                \<and> unroll_long a m =
                    Inr (map (\<lambda>c. \<lparr>network_address =
                                      c AND mask_from_slash (int (fst (last rs)) - 1),
                                    prefixlen = int (fst (last rs)) - 1\<rparr>) cs)
         else \<exists>cs. unroller rs [a] = Inr cs
                \<and> unroll_long a m =
                    Inr (map (\<lambda>c. \<lparr>network_address = c, prefixlen = 32\<rparr>) cs)))"
proof (intro conjI allI impI)
  fix s e :: nat assume "1 \<le> s \<and> s \<le> 32"
  then show "process (Some (s, e)) cands =
         Inr (map (\<lambda>c. \<lparr>network_address = c AND mask_from_slash (int s - 1),
                         prefixlen = int s - 1\<rparr>) cands)"
    by (intro process_some) simp_all
next
  assume "\<forall>c\<in>set cands. 0 \<le> c \<and> c < 2 ^ 32"
  then show "process None cands = Inr (map (\<lambda>c. \<lparr>network_address = c, prefixlen = 32\<rparr>) cands)"
    by (rule process_none)
next
  fix rs assume h: "contiguous_bits m = Inr rs \<and> rs \<noteq> [] \<and> 0 \<le> a \<and> a < 2 ^ 32"
  then have rs: "contiguous_bits m = Inr rs" and ne: "rs \<noteq> []" and a: "\<forall>x\<in>set [a]. 0 \<le> x \<and> x < 2 ^ 32"
    by simp_all
  from contiguous_bits_runs [of m] rs have "runs_of m rs" by auto
  then have valid: "\<forall>r\<in>set rs. 1 \<le> fst r \<and> fst r \<le> snd r \<and> snd r \<le> 32"
    by (simp add: runs_of_def)
  show "if snd (last rs) = 32
         then \<exists>cs. unroller (butlast rs) [a] = Inr cs
                \<and> unroll_long a m =
                    Inr (map (\<lambda>c. \<lparr>network_address =
                                      c AND mask_from_slash (int (fst (last rs)) - 1),
                                    prefixlen = int (fst (last rs)) - 1\<rparr>) cs)
         else \<exists>cs. unroller rs [a] = Inr cs
                \<and> unroll_long a m =
                    Inr (map (\<lambda>c. \<lparr>network_address = c, prefixlen = 32\<rparr>) cs)"
  proof (cases "snd (last rs) = 32")
    case True
    have vb: "\<forall>r\<in>set (butlast rs). 1 \<le> fst r \<and> fst r \<le> snd r \<and> snd r \<le> 32"
      using valid by (auto dest: in_set_butlastD)
    from unroller_preserves [OF vb, of "[a]"]
    obtain cs where cs: "unroller (butlast rs) [a] = Inr cs" by blast
    obtain s e where l: "last rs = (s, e)" by (cases "last rs")
    from valid ne l have "1 \<le> s" "s \<le> 33"
      using last_in_set [OF ne] by fastforce+
    then have "process (Some (s, e)) cs =
        Inr (map (\<lambda>c. \<lparr>network_address = c AND mask_from_slash (int s - 1),
                       prefixlen = int s - 1\<rparr>) cs)"
      by (rule process_some)
    with True cs rs ne l show ?thesis
      by (simp add: unroll_long_def)
  next
    case False
    from unroller_preserves [OF valid, of "[a]"]
    obtain cs where cs: "unroller rs [a] = Inr cs" by blast
    from unroller_range [OF valid a cs]
    have "process None cs = Inr (map (\<lambda>c. \<lparr>network_address = c, prefixlen = 32\<rparr>) cs)"
      by (rule process_none)
    with False cs rs ne show ?thesis
      by (simp add: unroll_long_def)
  qed
qed

theorem normalizer_results_witness:
  "process (Some (32, 32)) [0x0A0C0E10] =
       Inr [\<lparr>network_address = 0x0A0C0E10 AND mask_from_slash 31, prefixlen = 31\<rparr>]
   \<and> process None [0x0A0C0E10] = Inr [\<lparr>network_address = 0x0A0C0E10, prefixlen = 32\<rparr>]
   \<and> (\<exists>cs. unroller [(16, 16)] [0x0A0C0E10] = Inr cs
         \<and> unroll_long 0x0A0C0E10 0x00010001 =
             Inr (map (\<lambda>c. \<lparr>network_address = c AND mask_from_slash 31, prefixlen = 31\<rparr>) cs))"
proof -
  have cb: "contiguous_bits 0x00010001 = Inr [(16, 16), (32, 32)]"
    by code_simp
  from normalizer_results [of "[0x0A0C0E10]" "0x00010001" "0x0A0C0E10"] cb
  show ?thesis by simp
qed

section \<open>The literal scenarios\<close>

text \<open>
  C1 (zero mask). The claim: for every valid dotted-quad \<open>addr\<close>,
  \<open>unroll(addr, "0.0.0.0")\<close> does not throw and returns the single host \<open>addr\<close>. The
  script does not: the zero mask has no ranges, and \<open>ranges[-1]\<close> on line 83 raises
  IndexError before anything is expanded. Evaluated here at the address of the demo.
\<close>

theorem unroll_zero_mask_raises:
  "unroll ''10.12.14.16'' ''0.0.0.0'' = Inl IndexError"
  by code_simp

text \<open>The same for every address that parses.\<close>

lemma unroll_zero_mask_always_raises:
  assumes "ip2long addr = Inr a"
  shows "unroll addr ''0.0.0.0'' = Inl IndexError"
proof -
  have "ip2long ''0.0.0.0'' = Inr 0"
    by code_simp
  moreover have "contiguous_bits 0 = Inr []"
    by code_simp
  ultimately show ?thesis
    using assms by (simp add: unroll_def unroll_long_def)
qed

text \<open>
  C7 (mask 0.1.0.0, as the claim states it). The claim expects 4 host addresses. The mask
  0x00010000 has one set bit, so the script returns 2 results, not 4.
\<close>

theorem unroll_0_1_0_0_not_four:
  "map_sum id length (unroll ''10.12.14.16'' ''0.1.0.0'') \<noteq> Inr 4"
  by code_simp

text \<open>
  C7 (amended). For the address 10.12.14.16 and the mask 0.1.0.0, \<open>unroll\<close> returns
  exactly 2 single-host results, 10.12.14.16/32 and 10.13.14.16/32: one bit (position 16)
  is wildcarded and the run does not reach position 32.
\<close>

theorem unroll_0_1_0_0_two_hosts:
  "unroll ''10.12.14.16'' ''0.1.0.0'' =
     Inr [\<lparr>network_address = 0x0A0C0E10, prefixlen = 32\<rparr>,
          \<lparr>network_address = 0x0A0D0E10, prefixlen = 32\<rparr>]"
  by code_simp

text \<open>
  C8 (mask 240.0.0.2). For the address 10.12.14.16 and the mask 240.0.0.2, \<open>unroll\<close>
  returns exactly \<open>2^(4+1) = 32\<close> results, all distinct, each a single host (prefix
  length 32).
\<close>

theorem unroll_240_0_0_2_thirty_two_hosts:
  "\<exists>r. unroll ''10.12.14.16'' ''240.0.0.2'' = Inr r \<and> length r = 2 ^ (4 + 1) \<and> length r = 32
       \<and> distinct r \<and> map prefixlen r = replicate 32 32"
proof -
  have "unroll ''10.12.14.16'' ''240.0.0.2'' =
    Inr (map (\<lambda>a. \<lparr>network_address = a, prefixlen = 32\<rparr>)
      [168562192, 168562194, 436997648, 436997650, 705433104, 705433106, 973868560,
       973868562, 1242304016, 1242304018, 1510739472, 1510739474, 1779174928, 1779174930,
       2047610384, 2047610386, 2316045840, 2316045842, 2584481296, 2584481298, 2852916752,
       2852916754, 3121352208, 3121352210, 3389787664, 3389787666, 3658223120, 3658223122,
       3926658576, 3926658578, 4195094032, 4195094034])"
    by code_simp
  then show ?thesis
    by (simp add: numeral_eq_Suc)
qed

end
